theory Spec2Isabelle
  imports Main "HOL-Library.Word"
begin

section \<open>The partition structure of \<^verbatim>\<open>fst/partition.h\<close>\<close>

text \<open>
  The template parameter \<^verbatim>\<open>T\<close> ("must be a signed integer type") has two roles.  As an
  index or a size (\<^verbatim>\<open>class_id\<close>, the two links, the two heads, \<^verbatim>\<open>size\<close>, \<^verbatim>\<open>yes_size\<close>)
  it is modelled by \<^typ>\<open>int\<close>.  As a tag (the member \<^verbatim>\<open>yes\<close> of an element and
  \<^verbatim>\<open>yes_counter_\<close>) it is a machine word \<^typ>\<open>'a word\<close> of the width of \<^verbatim>\<open>T\<close>:
  \<^verbatim>\<open>FinalizeSplit\<close> increments the counter at every call, without a bound, and on words
  \<open>+ 1\<close> wraps around as the increment of a two's-complement \<^verbatim>\<open>T\<close> does.  Tags are only
  ever set to 0 or 1, copied, incremented and compared for equality, for which the signed
  and the unsigned reading of a word agree.  The type parameter of the two records is the
  type of the tags.

  The two vectors are lists.  The code subscripts them with the unchecked
  \<^verbatim>\<open>operator[]\<close>; a subscript outside the vector has no defined behaviour in C++, which
  the model records as the outcome \<open>Undefined\<close>: it says that the language leaves open
  what happens, a normal return included.

  Modelled from the spec: the macro \<^verbatim>\<open>CHECK\<close> is not defined in \<^verbatim>\<open>partition.h\<close>.  The
  spec has the contract "enforced by assertion" and violations "fail fast and loudly
  (abort/assert)", so \<^verbatim>\<open>CHECK(c)\<close> with a false \<open>c\<close> ends the program; that is the
  outcome \<open>CheckFailed\<close>.  The two outcomes are kept apart on purpose: only the
  second is something the code itself detects.
\<close>

datatype failure = CheckFailed | Undefined

record 't Element =
  class_id :: int
  yes :: 't
  next_element :: int
  prev_element :: int

record Class =
  size_c :: int
  yes_size :: int
  no_head :: int
  yes_head :: int

record 't Partition =
  elements :: "'t Element list"
  classes :: "Class list"
  visited_classes :: "int list"
  yes_counter :: 't

text \<open>\<^verbatim>\<open>Class(): size(0), yes_size(0), no_head(-1), yes_head(-1)\<close>\<close>

definition Class_new :: Class where
  "Class_new = \<lparr>size_c = 0, yes_size = 0, no_head = - 1, yes_head = - 1\<rparr>"

text \<open>
  \<^verbatim>\<open>Element\<close> has no constructor; \<^verbatim>\<open>vector::resize\<close> value-initialises the slots it
  appends, which for this plain struct sets every field to zero.
\<close>

definition Element_new :: "'a::len word Element" where
  "Element_new = \<lparr>class_id = 0, yes = 0, next_element = 0, prev_element = 0\<rparr>"

text \<open>
  \<^verbatim>\<open>Partition() { }\<close>: both vectors and the visited list are empty; \<^verbatim>\<open>yes_counter_\<close>
  is not initialised, so its value is a parameter here.
\<close>

definition Partition_new :: "'a::len word \<Rightarrow> 'a word Partition" where
  "Partition_new yc = \<lparr>elements = [], classes = [], visited_classes = [], yes_counter = yc\<rparr>"

definition valid_index :: "'a list \<Rightarrow> int \<Rightarrow> bool" where
  "valid_index xs i \<longleftrightarrow> 0 \<le> i \<and> i < int (length xs)"

definition resize :: "'a list \<Rightarrow> nat \<Rightarrow> 'a \<Rightarrow> 'a list" where
  "resize xs n v = take n xs @ replicate (n - length xs) v"

definition Initialize :: "'a::len word Partition \<Rightarrow> nat \<Rightarrow> 'a word Partition" where
  "Initialize p num_elements =
     p\<lparr>elements := resize (elements p) num_elements Element_new,
       classes := [],
       yes_counter := 1\<rparr>"

definition AddClass :: "'a::len word Partition \<Rightarrow> 'a word Partition \<times> int" where
  "AddClass p =
     (let num_classes = length (classes p)
      in (p\<lparr>classes := resize (classes p) (num_classes + 1) Class_new\<rparr>, int num_classes))"

definition set_prev :: "'a::len word Element list \<Rightarrow> int \<Rightarrow> int \<Rightarrow> 'a word Element list" where
  "set_prev es i v = es[nat i := (es ! nat i)\<lparr>prev_element := v\<rparr>]"

definition set_next :: "'a::len word Element list \<Rightarrow> int \<Rightarrow> int \<Rightarrow> 'a word Element list" where
  "set_next es i v = es[nat i := (es ! nat i)\<lparr>next_element := v\<rparr>]"

text \<open>
  The statement \<^verbatim>\<open>if (head >= 0) elements_[head].prev_element = v;\<close>, which the source
  uses whenever it puts an element in front of a list or takes one out.
\<close>

definition link_prev :: "'a::len word Element list \<Rightarrow> int \<Rightarrow> int \<Rightarrow> failure + 'a word Element list" where
  "link_prev es head v =
     (if 0 \<le> head
      then if \<not> valid_index es head then Inl Undefined else Inr (set_prev es head v)
      else Inr es)"

definition Add :: "'a::len word Partition \<Rightarrow> int \<Rightarrow> int \<Rightarrow> failure + 'a word Partition" where
  "Add p element_id cid =
     (if \<not> valid_index (elements p) element_id \<or> \<not> valid_index (classes p) cid
      then Inl Undefined
      else
        let this_class = classes p ! nat cid;
            head = no_head this_class
        in case link_prev (elements p) head element_id of
             Inl f \<Rightarrow> Inl f
           | Inr es1 \<Rightarrow>
               Inr (p\<lparr>elements := es1[nat element_id :=
                           \<lparr>class_id = cid, yes = 0, next_element = head, prev_element = - 1\<rparr>],
                       classes := (classes p)[nat cid :=
                           this_class\<lparr>size_c := size_c this_class + 1,
                                       no_head := element_id\<rparr>]\<rparr>))"

text \<open>
  The lines that take an element out of the 'no' list of its class stand twice in the
  source, once in \<^verbatim>\<open>Move\<close> and once in \<^verbatim>\<open>SplitOn\<close>; \<open>excise\<close> is that block, and
  \<open>k\<close> is the position of the class the caller holds a reference to.  The element is
  read again after the first store, as the reference \<^verbatim>\<open>element\<close> does.
\<close>

definition excise_next :: "'a::len word Element list \<Rightarrow> int \<Rightarrow> failure + 'a word Element list" where
  "excise_next es element_id =
     link_prev es (next_element (es ! nat element_id)) (prev_element (es ! nat element_id))"

definition excise ::
  "'a::len word Element list \<Rightarrow> Class list \<Rightarrow> int \<Rightarrow> nat \<Rightarrow> failure + 'a word Element list \<times> Class list" where
  "excise es cs element_id k =
     (let element = es ! nat element_id
      in if 0 \<le> prev_element element
         then if \<not> valid_index es (prev_element element) then Inl Undefined
              else
                (case excise_next (set_next es (prev_element element) (next_element element))
                        element_id of
                   Inl f \<Rightarrow> Inl f
                 | Inr es' \<Rightarrow> Inr (es', cs))
         else if no_head (cs ! k) \<noteq> element_id then Inl CheckFailed
         else
           (case excise_next es element_id of
              Inl f \<Rightarrow> Inl f
            | Inr es' \<Rightarrow> Inr (es', cs[k := (cs ! k)\<lparr>no_head := next_element element\<rparr>])))"

definition Move :: "'a::len word Partition \<Rightarrow> int \<Rightarrow> int \<Rightarrow> failure + 'a word Partition" where
  "Move p element_id cid =
     (if \<not> valid_index (elements p) element_id then Inl Undefined
      else
        let element = elements p ! nat element_id
        in if yes element = yes_counter p then Inl CheckFailed
           else if \<not> valid_index (classes p) (class_id element) then Inl Undefined
           else
             let k = nat (class_id element);
                 old_class = (classes p ! k)\<lparr>size_c := size_c (classes p ! k) - 1\<rparr>
             in if \<not> (0 \<le> size_c old_class \<and> yes_size old_class = 0) then Inl CheckFailed
                else
                  (case excise (elements p) ((classes p)[k := old_class]) element_id k of
                     Inl f \<Rightarrow> Inl f
                   | Inr (es', cs') \<Rightarrow> Add (p\<lparr>elements := es', classes := cs'\<rparr>) element_id cid))"

text \<open>
  \<open>SplitOn_yes\<close> is the second half of \<^verbatim>\<open>SplitOn\<close>, from the comment "add the element
  to the 'yes' list" on; it receives the vectors as the first half left them.
\<close>

definition SplitOn_yes ::
  "'a::len word Partition \<Rightarrow> 'a word Element list \<Rightarrow> Class list \<Rightarrow> int \<Rightarrow> int \<Rightarrow> failure + 'a word Partition" where
  "SplitOn_yes p es cs element_id cid =
     (let this_class = cs ! nat cid;
          yh = yes_head this_class
      in case link_prev es yh element_id of
           Inl f \<Rightarrow> Inl f
         | Inr es' \<Rightarrow>
             if \<not> yes_size this_class + 1 \<le> size_c this_class then Inl CheckFailed
             else
               Inr (p\<lparr>elements := es'[nat element_id :=
                           (es' ! nat element_id)
                             \<lparr>yes := yes_counter p, next_element := yh, prev_element := - 1\<rparr>],
                       classes := cs[nat cid :=
                           this_class\<lparr>yes_size := yes_size this_class + 1,
                                       yes_head := element_id\<rparr>],
                       visited_classes :=
                         (if 0 \<le> yh then visited_classes p else visited_classes p @ [cid])\<rparr>))"

definition SplitOn :: "'a::len word Partition \<Rightarrow> int \<Rightarrow> failure + 'a word Partition" where
  "SplitOn p element_id =
     (if \<not> valid_index (elements p) element_id then Inl Undefined
      else
        let element = elements p ! nat element_id
        in if yes element = yes_counter p then Inr p
           else
             let cid = class_id element
             in if \<not> valid_index (classes p) cid then Inl Undefined
                else
                  (case excise (elements p) (classes p) element_id (nat cid) of
                     Inl f \<Rightarrow> Inl f
                   | Inr (es', cs') \<Rightarrow> SplitOn_yes p es' cs' element_id cid))"

text \<open>
  The loop at the end of \<^verbatim>\<open>SplitRefine\<close>,
  \<^verbatim>\<open>for (T e = new_class.no_head; e >= 0; e = elements[e].next_element)\<close>.  It follows
  the links for as long as they are non-negative, so on a cyclic chain it does not
  return: that is the value \<open>None\<close>.  Just before the loop, \<^verbatim>\<open>SplitRefine\<close> takes
  \<^verbatim>\<open>&(elements_[0])\<close>, a subscript that lies outside an empty element vector.
\<close>

partial_function (option) relabel ::
  "'a::len word Element list \<Rightarrow> int \<Rightarrow> int \<Rightarrow> (failure + 'a word Element list) option" where
  "relabel es e new_class_id =
     (if 0 \<le> e
      then if \<not> valid_index es e then Some (Inl Undefined)
           else relabel (es[nat e := (es ! nat e)\<lparr>class_id := new_class_id\<rparr>])
                  (next_element (es ! nat e)) new_class_id
      else Some (Inr es))"

declare relabel.simps [code]

definition SplitRefine :: "'a::len word Partition \<Rightarrow> int \<Rightarrow> (failure + 'a word Partition \<times> int) option" where
  "SplitRefine p cid =
     (if \<not> valid_index (classes p) cid then Some (Inl Undefined)
      else
        let old = classes p ! nat cid;
            ysize = yes_size old;
            csize = size_c old;
            no_size = csize - ysize
        in if no_size = 0
           then if \<not> no_head old < 0 then Some (Inl CheckFailed)
                else Some (Inr (p\<lparr>classes := (classes p)[nat cid :=
                                    old\<lparr>yes_size := 0, no_head := yes_head old, yes_head := - 1\<rparr>]\<rparr>,
                                - 1))
           else
             let new_class_id = int (length (classes p));
                 cs1 = resize (classes p) (length (classes p) + 1) Class_new;
                 new_class = cs1 ! nat new_class_id;
                 (old_class, new_class) =
                   (if no_size < ysize
                    then (old\<lparr>size_c := ysize, yes_size := 0, no_head := yes_head old,
                               yes_head := - 1\<rparr>,
                          new_class\<lparr>size_c := no_size, no_head := no_head old\<rparr>)
                    else (old\<lparr>size_c := no_size, yes_size := 0, yes_head := - 1\<rparr>,
                          new_class\<lparr>size_c := ysize, no_head := yes_head old\<rparr>));
                 cs2 = cs1[nat cid := old_class, nat new_class_id := new_class]
             in if elements p = [] then Some (Inl Undefined)
                else
                  (case relabel (elements p) (no_head new_class) new_class_id of
                     None \<Rightarrow> None
                   | Some (Inl f) \<Rightarrow> Some (Inl f)
                   | Some (Inr es') \<Rightarrow>
                       Some (Inr (p\<lparr>elements := es', classes := cs2\<rparr>, new_class_id))))"

text \<open>
  Modelled from the spec: the queue type of \<^verbatim>\<open>FinalizeSplit\<close> is a template parameter
  whose classes live in \<^verbatim>\<open>fst/queue.h\<close>, which is not part of the sources at hand.  The
  spec asks only for "an append/enqueue operation accepting a class index", with the
  "order of enqueued items matching the order classes were visited".  The pointer
  \<^verbatim>\<open>Queue *L\<close> is an optional list, \<open>None\<close> being the null pointer.
\<close>

type_synonym queue = "int list option"

definition Enqueue :: "int list \<Rightarrow> int \<Rightarrow> int list" where
  "Enqueue q x = q @ [x]"

text \<open>
  The body of the \<^verbatim>\<open>for\<close> loop of \<^verbatim>\<open>FinalizeSplit\<close> for one entry of
  \<^verbatim>\<open>visited_classes_\<close>, then the loop.  \<^verbatim>\<open>SplitRefine\<close> does not touch the visited list
  and the bound \<^verbatim>\<open>size\<close> is read once, so the loop runs over the list as it is on entry.
\<close>

definition FinalizeSplit_step ::
  "'a::len word Partition \<Rightarrow> queue \<Rightarrow> int \<Rightarrow> (failure + 'a word Partition \<times> queue) option" where
  "FinalizeSplit_step p L cid =
     (case SplitRefine p cid of
        None \<Rightarrow> None
      | Some (Inl f) \<Rightarrow> Some (Inl f)
      | Some (Inr (p', new_class)) \<Rightarrow>
          Some (Inr (p', (case L of
                            Some q \<Rightarrow> if new_class \<noteq> - 1 then Some (Enqueue q new_class) else L
                          | None \<Rightarrow> L))))"

fun FinalizeSplit_loop ::
  "'a::len word Partition \<Rightarrow> queue \<Rightarrow> int list \<Rightarrow> (failure + 'a word Partition \<times> queue) option" where
  "FinalizeSplit_loop p L [] = Some (Inr (p, L))"
| "FinalizeSplit_loop p L (cid # rest) =
     (case FinalizeSplit_step p L cid of
        None \<Rightarrow> None
      | Some (Inl f) \<Rightarrow> Some (Inl f)
      | Some (Inr (p', L')) \<Rightarrow> FinalizeSplit_loop p' L' rest)"

definition FinalizeSplit :: "'a::len word Partition \<Rightarrow> queue \<Rightarrow> (failure + 'a word Partition \<times> queue) option" where
  "FinalizeSplit p L =
     (case FinalizeSplit_loop p L (visited_classes p) of
        None \<Rightarrow> None
      | Some (Inl f) \<Rightarrow> Some (Inl f)
      | Some (Inr (p', L')) \<Rightarrow>
          Some (Inr (p'\<lparr>visited_classes := [], yes_counter := yes_counter p' + 1\<rparr>, L')))"

text \<open>The three queries.\<close>

definition Partition_class_id :: "'a::len word Partition \<Rightarrow> int \<Rightarrow> failure + int" where
  "Partition_class_id p element_id =
     (if \<not> valid_index (elements p) element_id then Inl Undefined
      else Inr (class_id (elements p ! nat element_id)))"

definition class_size :: "'a::len word Partition \<Rightarrow> int \<Rightarrow> failure + int" where
  "class_size p cid =
     (if \<not> valid_index (classes p) cid then Inl Undefined
      else Inr (size_c (classes p ! nat cid)))"

definition num_classes :: "'a::len word Partition \<Rightarrow> int" where
  "num_classes p = int (length (classes p))"

text \<open>
  \<^verbatim>\<open>PartitionIterator\<close>: the reference \<^verbatim>\<open>p_\<close> is the partition handed to each
  operation; the two other members are the fields of the record.
\<close>

record PartitionIterator =
  it_element_id :: int
  it_class_id :: int

definition PartitionIterator_new :: "'a::len word Partition \<Rightarrow> int \<Rightarrow> failure + PartitionIterator" where
  "PartitionIterator_new p cid =
     (if \<not> valid_index (classes p) cid then Inl Undefined
      else Inr \<lparr>it_element_id = no_head (classes p ! nat cid), it_class_id = cid\<rparr>)"

definition Done :: "PartitionIterator \<Rightarrow> bool" where
  "Done it \<longleftrightarrow> it_element_id it < 0"

definition Value :: "PartitionIterator \<Rightarrow> int" where
  "Value it = it_element_id it"

definition Next :: "'a::len word Partition \<Rightarrow> PartitionIterator \<Rightarrow> failure + PartitionIterator" where
  "Next p it =
     (if \<not> valid_index (elements p) (it_element_id it) then Inl Undefined
      else Inr (it\<lparr>it_element_id := next_element (elements p ! nat (it_element_id it))\<rparr>))"

definition Reset :: "'a::len word Partition \<Rightarrow> PartitionIterator \<Rightarrow> failure + PartitionIterator" where
  "Reset p it =
     (if \<not> valid_index (classes p) (it_class_id it) then Inl Undefined
      else Inr (it\<lparr>it_element_id := no_head (classes p ! nat (it_class_id it))\<rparr>))"

text \<open>
  The way a caller enumerates a class, \<^verbatim>\<open>for (it(p, c); !it.Done(); it.Next()) it.Value()\<close>,
  collecting the values in the order visited.
\<close>

partial_function (option) members_loop ::
  "'a::len word Partition \<Rightarrow> PartitionIterator \<Rightarrow> int list \<Rightarrow> (failure + int list) option" where
  "members_loop p it acc =
     (if Done it then Some (Inr (rev acc))
      else (case Next p it of
              Inl f \<Rightarrow> Some (Inl f)
            | Inr it' \<Rightarrow> members_loop p it' (Value it # acc)))"

declare members_loop.simps [code]

definition members :: "'a::len word Partition \<Rightarrow> int \<Rightarrow> (failure + int list) option" where
  "members p cid =
     (case PartitionIterator_new p cid of
        Inl f \<Rightarrow> Some (Inl f)
      | Inr it \<Rightarrow> members_loop p it [])"

section \<open>Sequences of calls\<close>

text \<open>
  The scenarios of the specification are sequences of calls on one partition and one
  worklist; \<open>calls\<close> runs such a sequence and stops at the first failure.
\<close>

datatype call = CallInitialize nat | CallAddClass | CallAdd int int | CallMove int int
  | CallSplitOn int | CallFinalizeSplit

definition lift_queue :: "queue \<Rightarrow> failure + 'a::len word Partition \<Rightarrow> (failure + 'a word Partition \<times> queue) option" where
  "lift_queue L r = (case r of Inl f \<Rightarrow> Some (Inl f) | Inr p \<Rightarrow> Some (Inr (p, L)))"

fun call_step :: "'a::len word Partition \<times> queue \<Rightarrow> call \<Rightarrow> (failure + 'a word Partition \<times> queue) option" where
  "call_step (p, L) (CallInitialize n) = Some (Inr (Initialize p n, L))"
| "call_step (p, L) CallAddClass = Some (Inr (fst (AddClass p), L))"
| "call_step (p, L) (CallAdd e c) = lift_queue L (Add p e c)"
| "call_step (p, L) (CallMove e c) = lift_queue L (Move p e c)"
| "call_step (p, L) (CallSplitOn e) = lift_queue L (SplitOn p e)"
| "call_step (p, L) CallFinalizeSplit = FinalizeSplit p L"

fun calls :: "'a::len word Partition \<times> queue \<Rightarrow> call list \<Rightarrow> (failure + 'a word Partition \<times> queue) option" where
  "calls s [] = Some (Inr s)"
| "calls s (c # cs) =
     (case call_step s c of
        None \<Rightarrow> None
      | Some (Inl f) \<Rightarrow> Some (Inl f)
      | Some (Inr s') \<Rightarrow> calls s' cs)"

definition scenario_A :: "call list" where
  "scenario_A =
     [CallAddClass, CallAddClass, CallAdd 0 0, CallAdd 1 0, CallAdd 2 0, CallAdd 3 0,
      CallSplitOn 1, CallSplitOn 2, CallFinalizeSplit]"

text \<open>
  The partition of Scenario A at three moments: after the four \<^verbatim>\<open>Add\<close> calls, after the
  two \<^verbatim>\<open>SplitOn\<close> calls, and after \<^verbatim>\<open>FinalizeSplit\<close>.
\<close>

definition scenario_A_added :: "'a::len word Partition" where
  "scenario_A_added =
     \<lparr>elements =
        [\<lparr>class_id = 0, yes = 0, next_element = - 1, prev_element = 1\<rparr>,
         \<lparr>class_id = 0, yes = 0, next_element = 0, prev_element = 2\<rparr>,
         \<lparr>class_id = 0, yes = 0, next_element = 1, prev_element = 3\<rparr>,
         \<lparr>class_id = 0, yes = 0, next_element = 2, prev_element = - 1\<rparr>],
      classes =
        [\<lparr>size_c = 4, yes_size = 0, no_head = 3, yes_head = - 1\<rparr>,
         \<lparr>size_c = 0, yes_size = 0, no_head = - 1, yes_head = - 1\<rparr>],
      visited_classes = [], yes_counter = 1\<rparr>"

definition scenario_A_marked :: "'a::len word Partition" where
  "scenario_A_marked =
     \<lparr>elements =
        [\<lparr>class_id = 0, yes = 0, next_element = - 1, prev_element = 3\<rparr>,
         \<lparr>class_id = 0, yes = 1, next_element = - 1, prev_element = 2\<rparr>,
         \<lparr>class_id = 0, yes = 1, next_element = 1, prev_element = - 1\<rparr>,
         \<lparr>class_id = 0, yes = 0, next_element = 0, prev_element = - 1\<rparr>],
      classes =
        [\<lparr>size_c = 4, yes_size = 2, no_head = 3, yes_head = 2\<rparr>,
         \<lparr>size_c = 0, yes_size = 0, no_head = - 1, yes_head = - 1\<rparr>],
      visited_classes = [0], yes_counter = 1\<rparr>"

definition scenario_A_refined :: "'a::len word Partition" where
  "scenario_A_refined =
     \<lparr>elements =
        [\<lparr>class_id = 0, yes = 0, next_element = - 1, prev_element = 3\<rparr>,
         \<lparr>class_id = 2, yes = 1, next_element = - 1, prev_element = 2\<rparr>,
         \<lparr>class_id = 2, yes = 1, next_element = 1, prev_element = - 1\<rparr>,
         \<lparr>class_id = 0, yes = 0, next_element = 0, prev_element = - 1\<rparr>],
      classes =
        [\<lparr>size_c = 2, yes_size = 0, no_head = 3, yes_head = - 1\<rparr>,
         \<lparr>size_c = 0, yes_size = 0, no_head = - 1, yes_head = - 1\<rparr>,
         \<lparr>size_c = 2, yes_size = 0, no_head = 2, yes_head = - 1\<rparr>],
      visited_classes = [], yes_counter = 2\<rparr>"

section \<open>Well-formed partitions\<close>

text \<open>
  What the two sublists of a class are is not stored anywhere: it is what following the
  links gives.  \<open>dll es prv h xs\<close> says that the chain starting at head \<open>h\<close> runs through
  exactly the elements \<open>xs\<close>, each inside the vector, each pointing back to the one
  before it (\<open>prv\<close> for the first), and ends with the link \<open>-1\<close>.
\<close>

fun dll :: "'a::len word Element list \<Rightarrow> int \<Rightarrow> int \<Rightarrow> nat list \<Rightarrow> bool" where
  "dll es prv h [] \<longleftrightarrow> h = - 1"
| "dll es prv h (x # xs) \<longleftrightarrow>
     h = int x \<and> x < length es \<and> prev_element (es ! x) = prv \<and>
     dll es (int x) (next_element (es ! x)) xs"

text \<open>
  One class \<open>cl\<close> with index \<open>c\<close>, 'no' list \<open>no\<close> and 'yes' list \<open>ys\<close>: both chains are
  there, they share no element, the two counters count them, every member records \<open>c\<close>
  as its class, and the members of the 'yes' list carry the current tag \<open>yc\<close>.  Nothing is
  asked of the tags in the 'no' list: an element there may carry the current tag, after
  \<^verbatim>\<open>Initialize\<close> has set the counter back to 1 or after the counter has wrapped around.
\<close>

definition class_ok ::
  "'a::len word Element list \<Rightarrow> 'a word \<Rightarrow> Class \<Rightarrow> nat \<Rightarrow> nat list \<Rightarrow> nat list \<Rightarrow> bool" where
  "class_ok es yc cl c no ys \<longleftrightarrow>
     dll es (- 1) (no_head cl) no \<and>
     dll es (- 1) (yes_head cl) ys \<and>
     size_c cl = int (length no) + int (length ys) \<and>
     yes_size cl = int (length ys) \<and>
     (\<forall>x\<in>set no. class_id (es ! x) = int c \<and> x \<notin> set ys) \<and>
     (\<forall>x\<in>set ys. class_id (es ! x) = int c \<and> yes (es ! x) = yc)"

text \<open>
  \<open>classes_ok p nos yess\<close>: every class of \<open>p\<close> is as above, with the lists \<open>nos ! c\<close>
  and \<open>yess ! c\<close>.
\<close>

definition classes_ok :: "'a::len word Partition \<Rightarrow> nat list list \<Rightarrow> nat list list \<Rightarrow> bool" where
  "classes_ok p nos yess \<longleftrightarrow>
     length nos = length (classes p) \<and>
     length yess = length (classes p) \<and>
     (\<forall>c\<in>set [0..<length (classes p)].
        class_ok (elements p) (yes_counter p) (classes p ! c) c (nos ! c) (yess ! c))"

text \<open>
  \<open>inv_at p nos yess vs\<close>: the classes are in order and every class with a non-empty 'yes'
  list is named in \<open>vs\<close>, which may name it more than once and may name other classes or
  numbers that are no class at all.  With \<open>vs\<close> the visited list this is \<open>inv\<close>, what
  holds between the calls whatever the caller did before, \<^verbatim>\<open>Initialize\<close> in the middle
  of a split included; with \<open>vs\<close> the entries of the visited list still to come it is
  what holds at each turn of the loop of \<^verbatim>\<open>FinalizeSplit\<close>.
\<close>

definition inv_at ::
  "'a::len word Partition \<Rightarrow> nat list list \<Rightarrow> nat list list \<Rightarrow> int list \<Rightarrow> bool" where
  "inv_at p nos yess vs \<longleftrightarrow>
     classes_ok p nos yess \<and>
     (\<forall>c\<in>set [0..<length yess]. yess ! c \<noteq> [] \<longrightarrow> int c \<in> set vs)"

definition inv :: "'a::len word Partition \<Rightarrow> nat list list \<Rightarrow> nat list list \<Rightarrow> bool" where
  "inv p nos yess \<longleftrightarrow> inv_at p nos yess (visited_classes p)"

text \<open>
  \<open>wf_at p nos yess vs\<close>: the classes are in order and \<open>vs\<close> names each class with a
  non-empty 'yes' list once, and nothing else.  This is what the visited list is meant to
  be; \<open>wf\<close> says it of the visited list itself.
\<close>

definition wf_at ::
  "'a::len word Partition \<Rightarrow> nat list list \<Rightarrow> nat list list \<Rightarrow> int list \<Rightarrow> bool" where
  "wf_at p nos yess vs \<longleftrightarrow>
     classes_ok p nos yess \<and>
     distinct vs \<and>
     set vs = set (map int (filter (\<lambda>c. yess ! c \<noteq> []) [0..<length yess]))"

definition wf :: "'a::len word Partition \<Rightarrow> nat list list \<Rightarrow> nat list list \<Rightarrow> bool" where
  "wf p nos yess \<longleftrightarrow> wf_at p nos yess (visited_classes p)"

text \<open>
  What \<^verbatim>\<open>SplitRefine\<close> for class \<open>k\<close> does to the lists: nothing but a renaming when
  the 'no' list is empty; otherwise the shorter list goes to a new class at the end, the
  'yes' list when both are equally long.  In every case the 'yes' list of \<open>k\<close> is empty
  afterwards.
\<close>

definition split_nos :: "nat list list \<Rightarrow> nat list list \<Rightarrow> nat \<Rightarrow> nat list list" where
  "split_nos nos yess k =
     (if nos ! k = [] then nos[k := yess ! k]
      else if length (nos ! k) < length (yess ! k) then nos[k := yess ! k] @ [nos ! k]
      else nos @ [yess ! k])"

definition split_yess :: "nat list list \<Rightarrow> nat list list \<Rightarrow> nat \<Rightarrow> nat list list" where
  "split_yess nos yess k =
     (if nos ! k = [] then yess[k := []] else yess[k := []] @ [[]])"

text \<open>
  Of a 'no' list and a 'yes' list, the one \<^verbatim>\<open>SplitRefine\<close> leaves in the old class and the
  one it moves to the new class: the shorter one moves, the 'yes' list when both are
  equally long.
\<close>

definition kept :: "nat list \<Rightarrow> nat list \<Rightarrow> nat list" where
  "kept no ys = (if length no < length ys then ys else no)"

definition moved :: "nat list \<Rightarrow> nat list \<Rightarrow> nat list" where
  "moved no ys = (if length no < length ys then no else ys)"

text \<open>The same for a whole run of \<^verbatim>\<open>FinalizeSplit\<close> over the visited list \<open>vs\<close>.\<close>

fun split_all ::
  "nat list list \<times> nat list list \<Rightarrow> int list \<Rightarrow> nat list list \<times> nat list list" where
  "split_all g [] = g"
| "split_all g (c # cs) =
     split_all (split_nos (fst g) (snd g) (nat c), split_yess (fst g) (snd g) (nat c)) cs"

text \<open>
  The partitions a caller can reach who keeps to the documented contract: it starts
  from a fresh object with \<^verbatim>\<open>Initialize\<close>, initialises again whenever it likes, adds
  classes, adds only elements that no class owns yet, moves and splits only elements that
  a class owns, and calls \<^verbatim>\<open>FinalizeSplit\<close> at will.  Only calls that return normally
  lead on.  The set \<open>A\<close> holds the elements added since the last \<^verbatim>\<open>Initialize\<close>.
\<close>

inductive reachable :: "'a::len word Partition \<Rightarrow> nat set \<Rightarrow> bool" where
  init: "reachable (Initialize (Partition_new yc) n) {}"
| reinit: "reachable p A \<Longrightarrow> reachable (Initialize p n) {}"
| add_class: "reachable p A \<Longrightarrow> reachable (fst (AddClass p)) A"
| add: "reachable p A \<Longrightarrow> 0 \<le> e \<Longrightarrow> nat e \<notin> A \<Longrightarrow> Add p e c = Inr p' \<Longrightarrow>
        reachable p' (insert (nat e) A)"
| move: "reachable p A \<Longrightarrow> 0 \<le> e \<Longrightarrow> nat e \<in> A \<Longrightarrow> Move p e c = Inr p' \<Longrightarrow>
         reachable p' A"
| split_on: "reachable p A \<Longrightarrow> 0 \<le> e \<Longrightarrow> nat e \<in> A \<Longrightarrow> SplitOn p e = Inr p' \<Longrightarrow>
             reachable p' A"
| finalize: "reachable p A \<Longrightarrow> FinalizeSplit p L = Some (Inr (p', L')) \<Longrightarrow>
             reachable p' A"

text \<open>
  Scenario B: the partition of Scenario A after its four \<^verbatim>\<open>Add\<close> calls, with all four
  elements split on.
\<close>

definition scenario_B_marked :: "'a::len word Partition" where
  "scenario_B_marked =
     \<lparr>elements =
        [\<lparr>class_id = 0, yes = 1, next_element = - 1, prev_element = 1\<rparr>,
         \<lparr>class_id = 0, yes = 1, next_element = 0, prev_element = 2\<rparr>,
         \<lparr>class_id = 0, yes = 1, next_element = 1, prev_element = 3\<rparr>,
         \<lparr>class_id = 0, yes = 1, next_element = 2, prev_element = - 1\<rparr>],
      classes =
        [\<lparr>size_c = 4, yes_size = 4, no_head = - 1, yes_head = 3\<rparr>,
         \<lparr>size_c = 0, yes_size = 0, no_head = - 1, yes_head = - 1\<rparr>],
      visited_classes = [0], yes_counter = 1\<rparr>"

text \<open>
  \<^verbatim>\<open>Initialize\<close> in the middle of a split: the visited list keeps its entry, and the
  next \<^verbatim>\<open>SplitOn\<close> in the new class 0 enters the class a second time.  \<open>stale_marked\<close> is
  the partition after these calls; both members of class 0 are in its 'yes' list.
\<close>

definition stale_calls :: "call list" where
  "stale_calls =
     [CallInitialize 2, CallAddClass, CallAdd 0 0, CallSplitOn 0,
      CallInitialize 2, CallAddClass, CallAdd 0 0, CallAdd 1 0, CallSplitOn 0, CallSplitOn 1]"

definition stale_marked :: "'a::len word Partition" where
  "stale_marked =
     \<lparr>elements =
        [\<lparr>class_id = 0, yes = 1, next_element = - 1, prev_element = 1\<rparr>,
         \<lparr>class_id = 0, yes = 1, next_element = 0, prev_element = - 1\<rparr>],
      classes = [\<lparr>size_c = 2, yes_size = 2, no_head = - 1, yes_head = 1\<rparr>],
      visited_classes = [0, 0], yes_counter = 1\<rparr>"

definition stale_refined :: "'a::len word Partition" where
  "stale_refined =
     \<lparr>elements =
        [\<lparr>class_id = 0, yes = 1, next_element = - 1, prev_element = 1\<rparr>,
         \<lparr>class_id = 0, yes = 1, next_element = 0, prev_element = - 1\<rparr>],
      classes = [\<lparr>size_c = 2, yes_size = 0, no_head = 1, yes_head = - 1\<rparr>,
                 \<lparr>size_c = 0, yes_size = 0, no_head = - 1, yes_head = - 1\<rparr>],
      visited_classes = [], yes_counter = 2\<rparr>"

text \<open>
  The same with two classes, where the entry that stays in the visited list names the
  empty class 1: the visited list of \<open>stale_once_marked\<close> names each of the two classes
  once.
\<close>

definition stale_once_calls :: "call list" where
  "stale_once_calls =
     [CallInitialize 2, CallAddClass, CallAddClass, CallAdd 0 1, CallSplitOn 0,
      CallInitialize 2, CallAddClass, CallAddClass, CallAdd 0 0, CallAdd 1 0,
      CallSplitOn 0, CallSplitOn 1]"

definition stale_once_marked :: "'a::len word Partition" where
  "stale_once_marked =
     \<lparr>elements =
        [\<lparr>class_id = 0, yes = 1, next_element = - 1, prev_element = 1\<rparr>,
         \<lparr>class_id = 0, yes = 1, next_element = 0, prev_element = - 1\<rparr>],
      classes = [\<lparr>size_c = 2, yes_size = 2, no_head = - 1, yes_head = 1\<rparr>,
                 \<lparr>size_c = 0, yes_size = 0, no_head = - 1, yes_head = - 1\<rparr>],
      visited_classes = [1, 0], yes_counter = 1\<rparr>"


section \<open>Basic facts\<close>

lemma link_prev_length: "link_prev es h v = Inr es' \<Longrightarrow> length es' = length es"
  by (auto simp: link_prev_def set_prev_def split: if_splits)

lemma excise_next_length: "excise_next es e = Inr es' \<Longrightarrow> length es' = length es"
  by (simp add: excise_next_def link_prev_length)

lemma excise_length:
  "excise es cs e k = Inr (es', cs') \<Longrightarrow> length es' = length es \<and> length cs' = length cs"
  by (auto simp: excise_def set_next_def Let_def split: if_splits sum.splits
      dest: excise_next_length)

lemma SplitOn_yes_tagged:
  assumes "SplitOn_yes p es cs e c = Inr p'" "valid_index es e"
  shows "valid_index (elements p') e \<and> yes (elements p' ! nat e) = yes_counter p'"
proof -
  from assms obtain es' where l: "link_prev es (yes_head (cs ! nat c)) e = Inr es'"
    by (cases "link_prev es (yes_head (cs ! nat c)) e") (auto simp: SplitOn_yes_def Let_def)
  from link_prev_length[OF l] have "length es' = length es" .
  with assms l show ?thesis
    by (auto simp: SplitOn_yes_def Let_def valid_index_def split: if_splits)
qed

lemma SplitOn_tagged:
  assumes "SplitOn p e = Inr p'"
  shows "valid_index (elements p') e \<and> yes (elements p' ! nat e) = yes_counter p'"
proof (cases "yes (elements p ! nat e) = yes_counter p")
  case True
  with assms show ?thesis by (simp add: SplitOn_def split: if_splits)
next
  case False
  from assms have v: "valid_index (elements p) e"
    by (simp add: SplitOn_def split: if_splits)
  let ?c = "class_id (elements p ! nat e)"
  from assms False v have vc: "valid_index (classes p) ?c"
    by (simp add: SplitOn_def Let_def split: if_splits)
  from assms False v vc obtain es1 cs1 where
    ex: "excise (elements p) (classes p) e (nat ?c) = Inr (es1, cs1)"
    by (cases "excise (elements p) (classes p) e (nat ?c)") (auto simp: SplitOn_def Let_def)
  from excise_length[OF ex] v have len: "valid_index es1 e" by (simp add: valid_index_def)
  from assms False v vc ex have "SplitOn_yes p es1 cs1 e ?c = Inr p'"
    by (simp add: SplitOn_def Let_def)
  from SplitOn_yes_tagged[OF this len] show ?thesis .
qed

lemma SplitRefine_classes:
  assumes "SplitRefine p c = Some (Inr (p', n))"
  shows "(n = - 1 \<and> length (classes p') = length (classes p)) \<or>
         (n = int (length (classes p)) \<and> length (classes p') = Suc (length (classes p)))"
proof (cases "size_c (classes p ! nat c) - yes_size (classes p ! nat c) = 0")
  case True
  with assms show ?thesis
    by (auto simp: SplitRefine_def Let_def split: if_splits)
next
  case False
  with assms show ?thesis
    by (auto simp: SplitRefine_def Let_def resize_def split: if_splits option.splits sum.splits)
qed

lemma FinalizeSplit_loop_null:
  "FinalizeSplit_loop p None vs =
     map_option (map_sum id (\<lambda>(p', L'). (p', None))) (FinalizeSplit_loop p (Some q) vs)"
proof (induction vs arbitrary: p q)
  case Nil
  show ?case by simp
next
  case (Cons c vs)
  show ?case
  proof (cases "SplitRefine p c")
    case None
    then show ?thesis by (simp add: FinalizeSplit_step_def)
  next
    case (Some r)
    show ?thesis
    proof (cases r)
      case (Inl f)
      with Some show ?thesis by (simp add: FinalizeSplit_step_def)
    next
      case (Inr b)
      obtain p1 n where b: "b = (p1, n)" by (cases b)
      show ?thesis using Some Inr b Cons.IH[of p1 "Enqueue q n"] Cons.IH[of p1 q]
        by (simp add: FinalizeSplit_step_def)
    qed
  qed
qed

lemma FinalizeSplit_loop_queue:
  "FinalizeSplit_loop p (Some q) vs = Some (Inr (p', L')) \<Longrightarrow>
     length (classes p) \<le> length (classes p') \<and>
     L' = Some (q @ map int [length (classes p)..<length (classes p')])"
proof (induction vs arbitrary: p q)
  case Nil
  then show ?case by simp
next
  case (Cons c vs)
  from Cons.prems obtain p1 n where
    sr: "SplitRefine p c = Some (Inr (p1, n))" and
    rest: "FinalizeSplit_loop p1 (if n \<noteq> - 1 then Some (Enqueue q n) else Some q) vs
             = Some (Inr (p', L'))"
    by (auto simp: FinalizeSplit_step_def split: option.splits sum.splits)
  from SplitRefine_classes[OF sr] show ?case
  proof
    assume a: "n = - 1 \<and> length (classes p1) = length (classes p)"
    with rest Cons.IH[of p1 q] show ?thesis by simp
  next
    assume a: "n = int (length (classes p)) \<and> length (classes p1) = Suc (length (classes p))"
    with rest have "FinalizeSplit_loop p1 (Some (q @ [int (length (classes p))])) vs
             = Some (Inr (p', L'))" by (simp add: Enqueue_def)
    from Cons.IH[OF this] a show ?thesis
      by (simp add: upt_conv_Cons)
  qed
qed

subsection \<open>Chains\<close>

lemma dll_frame:
  "length es' = length es \<Longrightarrow>
   (\<forall>x\<in>set xs. next_element (es' ! x) = next_element (es ! x) \<and>
                prev_element (es' ! x) = prev_element (es ! x)) \<Longrightarrow>
   dll es' prv h xs = dll es prv h xs"
  by (induction xs arbitrary: prv h) auto

lemma dll_bound: "dll es prv h xs \<Longrightarrow> x \<in> set xs \<Longrightarrow> x < length es"
  by (induction xs arbitrary: prv h) auto

lemma dll_head: "dll es prv h xs \<Longrightarrow> h = (case xs of [] \<Rightarrow> - 1 | x # _ \<Rightarrow> int x)"
  by (cases xs) auto

lemma dll_prev_nth:
  "dll es prv h xs \<Longrightarrow> i < length xs \<Longrightarrow>
   prev_element (es ! (xs ! i)) = (if i = 0 then prv else int (xs ! (i - 1)))"
proof (induction xs arbitrary: prv h i)
  case Nil
  then show ?case by simp
next
  case (Cons x xs)
  show ?case
  proof (cases i)
    case 0
    with Cons.prems show ?thesis by simp
  next
    case (Suc j)
    with Cons.prems Cons.IH[of "int x" "next_element (es ! x)" j] show ?thesis
      by (cases j) auto
  qed
qed

lemma dll_distinct_aux:
  assumes "dll es (- 1) h xs"
  shows "j < length xs \<Longrightarrow> i < j \<Longrightarrow> xs ! i \<noteq> xs ! j"
proof (induction i arbitrary: j)
  case 0
  then have p0: "prev_element (es ! (xs ! 0)) = - 1"
    using dll_prev_nth[OF assms, of 0] by (cases xs) auto
  from 0 have pj: "prev_element (es ! (xs ! j)) = int (xs ! (j - 1))"
    using dll_prev_nth[OF assms, of j] by simp
  show ?case
  proof
    assume "xs ! 0 = xs ! j"
    with p0 pj show False by simp
  qed
next
  case (Suc i)
  then have pi: "prev_element (es ! (xs ! Suc i)) = int (xs ! i)"
    using dll_prev_nth[OF assms, of "Suc i"] by simp
  from Suc.prems have pj: "prev_element (es ! (xs ! j)) = int (xs ! (j - 1))"
    using dll_prev_nth[OF assms, of j] by simp
  show ?case
  proof
    assume "xs ! Suc i = xs ! j"
    with pi pj have "xs ! i = xs ! (j - 1)" by simp
    moreover from Suc.prems have "j - 1 < length xs" "i < j - 1" by simp_all
    ultimately show False using Suc.IH[of "j - 1"] by simp
  qed
qed

lemma dll_distinct: "dll es (- 1) h xs \<Longrightarrow> distinct xs"
  unfolding distinct_conv_nth
  by (metis dll_distinct_aux linorder_neqE_nat)

lemma dll_update_other: "a \<notin> set xs \<Longrightarrow> dll (es[a := v]) prv h xs = dll es prv h xs"
proof (rule dll_frame)
  assume a: "a \<notin> set xs"
  show "length (es[a := v]) = length es" by simp
  show "\<forall>x\<in>set xs. next_element (es[a := v] ! x) = next_element (es ! x) \<and>
          prev_element (es[a := v] ! x) = prev_element (es ! x)"
  proof
    fix x assume "x \<in> set xs"
    with a have "a \<noteq> x" by auto
    then show "next_element (es[a := v] ! x) = next_element (es ! x) \<and>
          prev_element (es[a := v] ! x) = prev_element (es ! x)" by simp
  qed
qed

lemma dll_neighbours:
  "dll es prv h (ys @ x # zs) \<Longrightarrow>
   prev_element (es ! x) = (if ys = [] then prv else int (last ys)) \<and>
   next_element (es ! x) = (case zs of [] \<Rightarrow> - 1 | z # _ \<Rightarrow> int z) \<and>
   x < length es"
proof (induction ys arbitrary: prv h)
  case Nil
  then show ?case using dll_head[of es "int x" "next_element (es ! x)" zs] by simp
next
  case (Cons y ys)
  from Cons.prems have "dll es (int y) (next_element (es ! y)) (ys @ x # zs)" by simp
  from Cons.IH[OF this] show ?case by simp
qed

lemma dll_remove_head:
  assumes "dll es prv h (x # zs)" "distinct (x # zs)"
  shows "dll (case zs of [] \<Rightarrow> es | z # _ \<Rightarrow> set_prev es (int z) prv) prv
           (next_element (es ! x)) zs"
proof (cases zs)
  case Nil
  with assms show ?thesis by simp
next
  case (Cons z zs')
  with assms have "z \<notin> set zs'" by simp
  with assms Cons show ?thesis by (simp add: set_prev_def dll_update_other)
qed

lemma dll_remove_inner:
  assumes "dll es prv h (ys @ y # x # zs)" "distinct (ys @ y # x # zs)"
  shows "dll (case zs of [] \<Rightarrow> set_next es (int y) (next_element (es ! x))
              | z # _ \<Rightarrow> set_prev (set_next es (int y) (next_element (es ! x))) (int z) (int y))
           prv h (ys @ y # zs)"
  using assms
proof (induction ys arbitrary: prv h)
  case Nil
  from Nil.prems have d: "h = int y" "y < length es" "prev_element (es ! y) = prv"
    "next_element (es ! y) = int x" "x < length es" "prev_element (es ! x) = int y"
    "dll es (int x) (next_element (es ! x)) zs" "y \<noteq> x" "y \<notin> set zs" "x \<notin> set zs" "distinct zs"
    by simp_all
  show ?case
  proof (cases zs)
    case Nil': Nil
    with d show ?thesis by (simp add: set_next_def)
  next
    case (Cons z zs')
    with d have z: "z \<notin> set zs'" "y \<notin> set zs'" "z \<noteq> y" "z < length es"
      "next_element (es ! x) = int z" "dll es (int z) (next_element (es ! z)) zs'"
      by simp_all
    have "dll (es[y := (es ! y)\<lparr>next_element := int z\<rparr>,
                 z := (es ! z)\<lparr>prev_element := int y\<rparr>]) (int z) (next_element (es ! z)) zs'"
      using z by (simp add: dll_update_other)
    with d z Cons show ?thesis
      by (simp add: set_prev_def set_next_def)
  qed
next
  case (Cons a ys)
  let ?es' = "(case zs of [] \<Rightarrow> set_next es (int y) (next_element (es ! x))
              | z # _ \<Rightarrow> set_prev (set_next es (int y) (next_element (es ! x))) (int z) (int y))"
  from Cons.prems have a: "a \<noteq> y" "a \<notin> set zs" "a < length es" by auto
  then have same: "?es' ! a = es ! a" and len: "length ?es' = length es"
    by (auto simp: set_prev_def set_next_def split: list.splits)
  from Cons.prems have "dll ?es' (int a) (next_element (es ! a)) (ys @ y # zs)"
    using Cons.IH[of "int a" "next_element (es ! a)"] by simp
  moreover from Cons.prems have "h = int a" "prev_element (es ! a) = prv" by simp_all
  ultimately show ?case using same len a by simp
qed

lemma excise_dll:
  assumes dl: "dll es (- 1) h xs" and x: "x \<in> set xs" and hd: "no_head (cs ! k) = h"
  shows "\<exists>es' h'. excise es cs (int x) k = Inr (es', cs[k := (cs ! k)\<lparr>no_head := h'\<rparr>]) \<and>
           dll es' (- 1) h' (remove1 x xs) \<and> length es' = length es \<and>
           (\<forall>i. i \<notin> set (remove1 x xs) \<longrightarrow> es' ! i = es ! i) \<and>
           (\<forall>i. class_id (es' ! i) = class_id (es ! i) \<and> yes (es' ! i) = yes (es ! i))"
proof -
  from split_list_first[OF x] obtain ys zs where xs: "xs = ys @ x # zs" and nys: "x \<notin> set ys"
    by blast
  from dll_distinct[OF dl] xs have dist: "distinct (ys @ x # zs)" by simp
  have rem: "remove1 x xs = ys @ zs" using xs nys by (simp add: remove1_append)
  from dll_neighbours[of es "- 1" h ys x zs] dl xs have
    pv: "prev_element (es ! x) = (if ys = [] then - 1 else int (last ys))" and
    nx: "next_element (es ! x) = (case zs of [] \<Rightarrow> - 1 | z # _ \<Rightarrow> int z)" and
    xl: "x < length es" by simp_all
  have zsb: "\<And>z. z \<in> set zs \<Longrightarrow> z < length es"
    using dll_bound[OF dl] xs by simp
  have ysb: "\<And>z. z \<in> set ys \<Longrightarrow> z < length es"
    using dll_bound[OF dl] xs by simp
  show ?thesis
  proof (cases ys rule: rev_cases)
    case Nil
    let ?es' = "(case zs of [] \<Rightarrow> es | z # _ \<Rightarrow> set_prev es (int z) (- 1))"
    let ?h' = "next_element (es ! x)"
    from dl xs Nil have hx: "h = int x" by simp
    from dll_remove_head[of es "- 1" h x zs] dl xs Nil dist
    have d': "dll ?es' (- 1) ?h' zs" by simp
    have ex: "excise es cs (int x) k = Inr (?es', cs[k := (cs ! k)\<lparr>no_head := ?h'\<rparr>])"
      using pv nx Nil hd hx zsb
      by (cases zs) (simp_all add: excise_def excise_next_def link_prev_def valid_index_def)
    have len: "length ?es' = length es" by (cases zs) (simp_all add: set_prev_def)
    have fr: "\<forall>i. i \<notin> set zs \<longrightarrow> ?es' ! i = es ! i"
      by (cases zs) (auto simp: set_prev_def)
    have fl: "\<forall>i. class_id (?es' ! i) = class_id (es ! i) \<and> yes (?es' ! i) = yes (es ! i)"
      using zsb by (cases zs) (auto simp: set_prev_def nth_list_update)
    from ex d' len fr fl rem Nil show ?thesis
      by (intro exI[of _ ?es'] exI[of _ ?h']) simp
  next
    case (snoc ys' y)
    let ?es1 = "set_next es (int y) (next_element (es ! x))"
    let ?es' = "(case zs of [] \<Rightarrow> ?es1 | z # _ \<Rightarrow> set_prev ?es1 (int z) (int y))"
    from dist snoc have yx: "y \<noteq> x" by auto
    from ysb snoc have yl: "y < length es" by simp
    from dll_remove_inner[of es "- 1" h ys' y x zs] dl xs snoc dist
    have d': "dll ?es' (- 1) h (ys' @ y # zs)" by simp
    have e1x: "?es1 ! x = es ! x" using yx by (simp add: set_next_def)
    have ex: "excise es cs (int x) k = Inr (?es', cs)"
      using pv nx snoc zsb yl e1x
      by (cases zs) (simp_all add: excise_def excise_next_def link_prev_def valid_index_def
          set_next_def)
    have cs: "cs[k := (cs ! k)\<lparr>no_head := h\<rparr>] = cs"
      using hd by (metis Class.surjective Class.update_convs(3) list_update_id)
    have len: "length ?es' = length es" by (cases zs) (simp_all add: set_prev_def set_next_def)
    have fr: "\<forall>i. i \<notin> set (ys' @ y # zs) \<longrightarrow> ?es' ! i = es ! i"
      by (cases zs) (auto simp: set_prev_def set_next_def)
    have fl: "\<forall>i. class_id (?es' ! i) = class_id (es ! i) \<and> yes (?es' ! i) = yes (es ! i)"
      using zsb yl by (cases zs) (auto simp: set_prev_def set_next_def nth_list_update)
    from ex cs have "excise es cs (int x) k = Inr (?es', cs[k := (cs ! k)\<lparr>no_head := h\<rparr>])"
      by simp
    with d' len fr fl rem snoc show ?thesis
      by (intro exI[of _ ?es'] exI[of _ h]) simp
  qed
qed

lemma dll_same:
  "length es' = length es \<Longrightarrow> (\<forall>x\<in>set xs. es' ! x = es ! x) \<Longrightarrow>
   dll es' prv h xs = dll es prv h xs"
  by (rule dll_frame) simp_all

lemma link_prev_dll:
  assumes dl: "dll es (- 1) h xs" and xl: "x < length es" and nx: "x \<notin> set xs"
  shows "\<exists>es1. link_prev es h (int x) = Inr es1 \<and> length es1 = length es \<and>
           (\<forall>i. i \<notin> set xs \<longrightarrow> es1 ! i = es ! i) \<and>
           (\<forall>i. class_id (es1 ! i) = class_id (es ! i) \<and> yes (es1 ! i) = yes (es ! i)) \<and>
           (\<forall>el. next_element el = h \<longrightarrow> prev_element el = - 1 \<longrightarrow>
                 dll (es1[x := el]) (- 1) (int x) (x # xs))"
proof (cases xs)
  case Nil
  with dl have "h = - 1" by simp
  with Nil xl show ?thesis by (simp add: link_prev_def)
next
  case (Cons z zs)
  with dl have d: "h = int z" "z < length es" "prev_element (es ! z) = - 1"
    "dll es (int z) (next_element (es ! z)) zs" by simp_all
  from dll_distinct[OF dl] Cons have zz: "z \<notin> set zs" by simp
  from nx Cons have xz: "x \<noteq> z" "x \<notin> set zs" by simp_all
  let ?es1 = "set_prev es (int z) (int x)"
  have l: "link_prev es h (int x) = Inr ?es1"
    using d by (simp add: link_prev_def valid_index_def)
  have len: "length ?es1 = length es" by (simp add: set_prev_def)
  have fr: "\<forall>i. i \<notin> set xs \<longrightarrow> ?es1 ! i = es ! i"
    using Cons by (auto simp: set_prev_def)
  have fl: "\<forall>i. class_id (?es1 ! i) = class_id (es ! i) \<and> yes (?es1 ! i) = yes (es ! i)"
    using d by (auto simp: set_prev_def nth_list_update)
  have push: "dll (?es1[x := el]) (- 1) (int x) (x # xs)"
    if "next_element el = h" "prev_element el = - 1" for el
  proof -
    have "dll (es[z := (es ! z)\<lparr>prev_element := int x\<rparr>, x := el]) (int z)
            (next_element (es ! z)) zs"
      using zz xz d by (simp add: dll_update_other)
    with that d xz xl Cons show ?thesis
      by (simp add: set_prev_def)
  qed
  from l len fr fl push show ?thesis
    by (intro exI[of _ ?es1]) blast
qed

subsection \<open>Classes in order\<close>

lemma class_ok_same:
  assumes "class_ok es yc cl c no ys" "length es' = length es"
    "\<forall>i\<in>set no \<union> set ys. es' ! i = es ! i"
  shows "class_ok es' yc cl c no ys"
proof -
  from assms have "dll es' (- 1) (no_head cl) no = dll es (- 1) (no_head cl) no"
    by (intro dll_same) simp_all
  moreover from assms have "dll es' (- 1) (yes_head cl) ys = dll es (- 1) (yes_head cl) ys"
    by (intro dll_same) simp_all
  ultimately show ?thesis using assms by (simp add: class_ok_def)
qed

lemma class_ok_disjoint:
  assumes "class_ok es yc cl c no ys"
  shows "set no \<inter> set ys = {}"
  using assms by (auto simp: class_ok_def)

lemma class_ok_other:
  assumes "class_ok es yc cl c no ys" "class_ok es yc cl' c' no' ys'" "c \<noteq> c'"
  shows "(set no \<union> set ys) \<inter> (set no' \<union> set ys') = {}"
proof -
  from assms have "\<forall>x\<in>set no \<union> set ys. class_id (es ! x) = int c"
    "\<forall>x\<in>set no' \<union> set ys'. class_id (es ! x) = int c'"
    by (auto simp: class_ok_def)
  with assms(3) have "x \<in> set no \<union> set ys \<Longrightarrow> x \<notin> set no' \<union> set ys'" for x
    by (metis of_nat_eq_iff)
  then show ?thesis by blast
qed

lemma class_okI:
  assumes "dll es (- 1) (no_head cl) no" "dll es (- 1) (yes_head cl) ys"
    "size_c cl = int (length no) + int (length ys)" "yes_size cl = int (length ys)"
    "set no \<inter> set ys = {}"
    "\<And>x. x \<in> set no \<Longrightarrow> class_id (es ! x) = int c"
    "\<And>x. x \<in> set ys \<Longrightarrow> class_id (es ! x) = int c \<and> yes (es ! x) = yc"
  shows "class_ok es yc cl c no ys"
  unfolding class_ok_def using assms by blast

lemma class_ok_single:
  assumes "dll es (- 1) h xs" "\<forall>i\<in>set xs. class_id (es ! i) = int c"
  shows "class_ok es yc \<lparr>size_c = int (length xs), yes_size = 0, no_head = h, yes_head = - 1\<rparr>
           c xs []"
  using assms by (simp add: class_ok_def)

lemma class_ok_relabel:
  assumes ok: "class_ok es yc cl c no ys" and l: "length es' = length es"
    and r: "\<forall>i. es' ! i = (if i \<in> M then (es ! i)\<lparr>class_id := n\<rparr> else es ! i)"
    and d: "M \<inter> (set no \<union> set ys) = {}"
  shows "class_ok es' yc cl c no ys"
proof (rule class_ok_same[OF ok l])
  show "\<forall>i\<in>set no \<union> set ys. es' ! i = es ! i"
  proof
    fix i assume "i \<in> set no \<union> set ys"
    with d have "i \<notin> M" by blast
    with r show "es' ! i = es ! i" by simp
  qed
qed

lemma dll_relabel:
  assumes "dll es prv h xs" "length es' = length es"
    "\<forall>i. es' ! i = (if i \<in> M then (es ! i)\<lparr>class_id := n\<rparr> else es ! i)"
  shows "dll es' prv h xs"
proof -
  have "dll es' prv h xs = dll es prv h xs"
    by (rule dll_frame) (use assms in simp_all)
  with assms(1) show ?thesis by simp
qed

lemma visited_set:
  "set (map int (filter (\<lambda>c. yess ! c \<noteq> []) [0..<length yess]))
     = {int c |c. c < length yess \<and> yess ! c \<noteq> []}"
  by auto

lemma in_concat_nth: "x \<in> set (concat ls) \<longleftrightarrow> (\<exists>c<length ls. x \<in> set (ls ! c))"
proof
  assume "x \<in> set (concat ls)"
  then obtain l where "l \<in> set ls" "x \<in> set l" by auto
  then show "\<exists>c<length ls. x \<in> set (ls ! c)" by (metis in_set_conv_nth)
next
  assume "\<exists>c<length ls. x \<in> set (ls ! c)"
  then show "x \<in> set (concat ls)" by auto
qed

lemma classes_ok_iff:
  "classes_ok p nos yess \<longleftrightarrow>
     length nos = length (classes p) \<and> length yess = length (classes p) \<and>
     (\<forall>c<length (classes p).
        class_ok (elements p) (yes_counter p) (classes p ! c) c (nos ! c) (yess ! c))"
  unfolding classes_ok_def by auto

lemma classes_ok_class:
  "classes_ok p nos yess \<Longrightarrow> c < length (classes p) \<Longrightarrow>
   class_ok (elements p) (yes_counter p) (classes p ! c) c (nos ! c) (yess ! c)"
  unfolding classes_ok_iff by simp

lemma classes_ok_length:
  "classes_ok p nos yess \<Longrightarrow> length nos = length (classes p) \<and> length yess = length (classes p)"
  unfolding classes_ok_iff by simp

lemma classes_okI:
  assumes "length nos = length (classes p)" "length yess = length (classes p)"
    "\<And>c. c < length (classes p) \<Longrightarrow>
       class_ok (elements p) (yes_counter p) (classes p ! c) c (nos ! c) (yess ! c)"
  shows "classes_ok p nos yess"
  unfolding classes_ok_iff using assms by blast

lemma wf_at_iff:
  "wf_at p nos yess vs \<longleftrightarrow>
     classes_ok p nos yess \<and> distinct vs \<and>
     set vs = {int c |c. c < length yess \<and> yess ! c \<noteq> []}"
  unfolding wf_at_def visited_set by simp

lemma inv_at_iff:
  "inv_at p nos yess vs \<longleftrightarrow>
     classes_ok p nos yess \<and> (\<forall>c<length yess. yess ! c \<noteq> [] \<longrightarrow> int c \<in> set vs)"
  unfolding inv_at_def by auto

lemma wf_at_inv_at: "wf_at p nos yess vs \<Longrightarrow> inv_at p nos yess vs"
  unfolding wf_at_iff inv_at_iff by blast

lemma wf_inv: "wf p nos yess \<Longrightarrow> inv p nos yess"
  unfolding wf_def inv_def by (rule wf_at_inv_at)

lemma inv_classes_ok: "inv p nos yess \<Longrightarrow> classes_ok p nos yess"
  unfolding inv_def inv_at_iff by simp

lemma classes_ok_member_unique:
  assumes w: "classes_ok p nos yess" and k: "k < length (classes p)" and x: "x \<in> set (nos ! k)"
    and c: "c < length (classes p)"
  shows "x \<notin> set (yess ! c) \<and> (x \<in> set (nos ! c) \<longrightarrow> c = k)"
proof (cases "c = k")
  case True
  with class_ok_disjoint[OF classes_ok_class[OF w k]] x show ?thesis by blast
next
  case False
  from class_ok_other[OF classes_ok_class[OF w c] classes_ok_class[OF w k] False] x
  show ?thesis by blast
qed

subsection \<open>\<^verbatim>\<open>SplitOn\<close>\<close>

lemma SplitOn_ok:
  assumes w: "classes_ok p nos yess" and k: "k < length (classes p)" and x: "x \<in> set (nos ! k)"
    and yx: "yes (elements p ! x) \<noteq> yes_counter p"
  shows "\<exists>p'. SplitOn p (int x) = Inr p' \<and>
               classes_ok p' (nos[k := remove1 x (nos ! k)]) (yess[k := x # yess ! k]) \<and>
               visited_classes p' =
                 (if yess ! k = [] then visited_classes p @ [int k] else visited_classes p) \<and>
               yes_counter p' = yes_counter p"
proof -
  let ?es = "elements p" and ?cs = "classes p" and ?yc = "yes_counter p"
  let ?no = "nos ! k" and ?ys = "yess ! k" and ?cl = "classes p ! k"
  from classes_ok_length[OF w] have ln: "length nos = length ?cs" "length yess = length ?cs"
    by simp_all
  note ok = classes_ok_class[OF w]
  have okk: "class_ok ?es ?yc ?cl k ?no ?ys" using ok k .
  then have dno: "dll ?es (- 1) (no_head ?cl) ?no"
    and dys: "dll ?es (- 1) (yes_head ?cl) ?ys"
    and sz: "size_c ?cl = int (length ?no) + int (length ?ys)"
    and ysz: "yes_size ?cl = int (length ?ys)"
    and cno: "\<forall>i\<in>set ?no. class_id (?es ! i) = int k"
    and cys: "\<forall>i\<in>set ?ys. class_id (?es ! i) = int k \<and> yes (?es ! i) = ?yc"
    by (simp_all add: class_ok_def)
  from dll_bound[OF dno x] have xl: "x < length ?es" .
  from cno x have cx: "class_id (?es ! x) = int k" by simp
  have disj: "set ?no \<inter> set ?ys = {}" using class_ok_disjoint[OF okk] .
  with x have xys: "x \<notin> set ?ys" by blast
  have hd: "no_head (?cs ! k) = no_head ?cl" by simp
  from excise_dll[OF dno x hd] obtain es1 h' where
    ex: "excise ?es ?cs (int x) k = Inr (es1, ?cs[k := ?cl\<lparr>no_head := h'\<rparr>])" and
    d1: "dll es1 (- 1) h' (remove1 x ?no)" and
    l1: "length es1 = length ?es" and
    f1: "\<forall>i. i \<notin> set (remove1 x ?no) \<longrightarrow> es1 ! i = ?es ! i" and
    g1: "\<forall>i. class_id (es1 ! i) = class_id (?es ! i) \<and> yes (es1 ! i) = yes (?es ! i)"
    by blast
  have sub: "set (remove1 x ?no) \<subseteq> set ?no" by (rule set_remove1_subset)
  have "\<forall>i\<in>set ?ys. es1 ! i = ?es ! i" using f1 disj sub by blast
  with dys l1 dll_same[of es1 ?es ?ys "- 1" "yes_head ?cl"]
  have dys1: "dll es1 (- 1) (yes_head ?cl) ?ys" by simp
  from xl l1 have xl1: "x < length es1" by simp
  from link_prev_dll[OF dys1 xl1 xys] obtain es2 where
    lp: "link_prev es1 (yes_head ?cl) (int x) = Inr es2" and
    l2: "length es2 = length es1" and
    f2: "\<forall>i. i \<notin> set ?ys \<longrightarrow> es2 ! i = es1 ! i" and
    g2: "\<forall>i. class_id (es2 ! i) = class_id (es1 ! i) \<and> yes (es2 ! i) = yes (es1 ! i)" and
    push: "\<forall>el. next_element el = yes_head ?cl \<longrightarrow> prev_element el = - 1 \<longrightarrow>
                 dll (es2[x := el]) (- 1) (int x) (x # ?ys)"
    by blast
  define el where "el = (es2 ! x)\<lparr>yes := ?yc, next_element := yes_head ?cl, prev_element := - 1\<rparr>"
  define es3 where "es3 = es2[x := el]"
  define cl' where "cl' = ?cl\<lparr>no_head := h', yes_size := yes_size ?cl + 1, yes_head := int x\<rparr>"
  define vs' where "vs' = (if 0 \<le> yes_head ?cl then visited_classes p
                           else visited_classes p @ [int k])"
  define p' where "p' = p\<lparr>elements := es3, classes := ?cs[k := cl'], visited_classes := vs'\<rparr>"
  from x sz ysz have chk: "yes_size ?cl + 1 \<le> size_c ?cl" by (cases ?no) auto
  have so: "SplitOn p (int x) = Inr p'"
    using xl yx cx k ex lp chk
    by (simp add: SplitOn_def SplitOn_yes_def valid_index_def p'_def es3_def el_def cl'_def
        vs'_def)
  have l3: "length es3 = length ?es" using l1 l2 by (simp add: es3_def)
  have A: "es3 ! i = ?es ! i" if "i \<notin> set ?no" "i \<notin> set ?ys" for i
  proof -
    from that x have "i \<noteq> x" by blast
    moreover from that sub have "i \<notin> set (remove1 x ?no)" by blast
    ultimately show ?thesis using f1 f2 that by (simp add: es3_def)
  qed
  have B: "class_id (es3 ! i) = class_id (?es ! i) \<and> yes (es3 ! i) = yes (?es ! i)"
    if "i \<noteq> x" for i
    using that g1 g2 by (simp add: es3_def)
  have C: "class_id (es3 ! x) = int k \<and> yes (es3 ! x) = ?yc"
    using xl l1 l2 g1 g2 cx by (simp add: es3_def el_def)
  have nxr: "x \<notin> set (remove1 x ?no)"
    using dll_distinct[OF dno] by simp
  have "\<forall>i\<in>set (remove1 x ?no). es3 ! i = es1 ! i"
  proof
    fix i assume i: "i \<in> set (remove1 x ?no)"
    with nxr have "i \<noteq> x" by blast
    moreover from i sub disj have "i \<notin> set ?ys" by blast
    ultimately show "es3 ! i = es1 ! i" using f2 by (simp add: es3_def)
  qed
  moreover have "length es3 = length es1" using l2 by (simp add: es3_def)
  ultimately have d3no: "dll es3 (- 1) h' (remove1 x ?no)"
    using d1 dll_same[of es3 es1 "remove1 x ?no" "- 1" h'] by simp
  have "next_element el = yes_head ?cl" "prev_element el = - 1" by (simp_all add: el_def)
  with push have d3ys: "dll es3 (- 1) (int x) (x # ?ys)"
    unfolding es3_def by blast
  from x have "0 < length ?no" by (rule length_pos_if_in_set)
  with x have "Suc (length (remove1 x ?no)) = length ?no" by (simp add: length_remove1)
  then have lr: "int (length ?no) = int (length (remove1 x ?no)) + 1" by linarith
  have okk': "class_ok es3 ?yc cl' k (remove1 x ?no) (x # ?ys)"
  proof (rule class_okI)
    show "dll es3 (- 1) (no_head cl') (remove1 x ?no)" using d3no by (simp add: cl'_def)
    show "dll es3 (- 1) (yes_head cl') (x # ?ys)" using d3ys by (simp add: cl'_def)
    show "size_c cl' = int (length (remove1 x ?no)) + int (length (x # ?ys))"
      using sz lr by (simp add: cl'_def)
    show "yes_size cl' = int (length (x # ?ys))" using ysz by (simp add: cl'_def)
    show "set (remove1 x ?no) \<inter> set (x # ?ys) = {}" using nxr sub disj by auto
  next
    fix i assume i: "i \<in> set (remove1 x ?no)"
    with nxr have ix: "i \<noteq> x" by blast
    from i sub have ino: "i \<in> set ?no" by blast
    with B[OF ix] cno show "class_id (es3 ! i) = int k" by simp
  next
    fix i assume i: "i \<in> set (x # ?ys)"
    show "class_id (es3 ! i) = int k \<and> yes (es3 ! i) = ?yc"
    proof (cases "i = x")
      case True
      with C show ?thesis by simp
    next
      case False
      with i have "i \<in> set ?ys" by simp
      with cys B[OF False] show ?thesis by simp
    qed
  qed
  have oko: "class_ok es3 ?yc (?cs ! c) c (nos ! c) (yess ! c)" if "c < length ?cs" "c \<noteq> k" for c
  proof (rule class_ok_same[OF ok[OF that(1)] l3])
    from class_ok_other[OF ok[OF that(1)] okk that(2)]
    show "\<forall>i\<in>set (nos ! c) \<union> set (yess ! c). es3 ! i = ?es ! i"
      using A by blast
  qed
  have w': "classes_ok p' (nos[k := remove1 x ?no]) (yess[k := x # ?ys])"
  proof (rule classes_okI)
    show "length (nos[k := remove1 x ?no]) = length (classes p')" using ln by (simp add: p'_def)
    show "length (yess[k := x # ?ys]) = length (classes p')" using ln by (simp add: p'_def)
  next
    fix c assume "c < length (classes p')"
    then have c: "c < length ?cs" by (simp add: p'_def)
    show "class_ok (elements p') (yes_counter p') (classes p' ! c) c
            (nos[k := remove1 x ?no] ! c) (yess[k := x # ?ys] ! c)"
    proof (cases "c = k")
      case True
      with okk' k ln show ?thesis by (simp add: p'_def)
    next
      case False
      with oko[OF c] show ?thesis by (simp add: p'_def)
    qed
  qed
  have yh: "0 \<le> yes_head ?cl \<longleftrightarrow> ?ys \<noteq> []"
    using dll_head[OF dys] by (cases ?ys) auto
  have "visited_classes p' =
          (if ?ys = [] then visited_classes p @ [int k] else visited_classes p)"
    using yh by (simp add: p'_def vs'_def)
  moreover have "yes_counter p' = ?yc" by (simp add: p'_def)
  ultimately show ?thesis using so w' by blast
qed

lemma SplitOn_inv:
  assumes w: "inv p nos yess" and k: "k < length (classes p)" and x: "x \<in> set (nos ! k)"
    and yx: "yes (elements p ! x) \<noteq> yes_counter p"
  shows "\<exists>p'. SplitOn p (int x) = Inr p' \<and>
               inv p' (nos[k := remove1 x (nos ! k)]) (yess[k := x # yess ! k])"
proof -
  from w have ok: "classes_ok p nos yess"
    and vis: "\<forall>c<length yess. yess ! c \<noteq> [] \<longrightarrow> int c \<in> set (visited_classes p)"
    by (simp_all add: inv_def inv_at_iff)
  from SplitOn_ok[OF ok k x yx] obtain p' where
    so: "SplitOn p (int x) = Inr p'" and
    ok': "classes_ok p' (nos[k := remove1 x (nos ! k)]) (yess[k := x # yess ! k])" and
    v': "visited_classes p' =
           (if yess ! k = [] then visited_classes p @ [int k] else visited_classes p)"
    by blast
  have "\<forall>c<length (yess[k := x # yess ! k]). yess[k := x # yess ! k] ! c \<noteq> [] \<longrightarrow>
          int c \<in> set (visited_classes p')"
  proof (intro allI impI)
    fix c assume c: "c < length (yess[k := x # yess ! k])"
      and ne: "yess[k := x # yess ! k] ! c \<noteq> []"
    show "int c \<in> set (visited_classes p')"
    proof (cases "c = k")
      case True
      show ?thesis
      proof (cases "yess ! k = []")
        case True
        with v' \<open>c = k\<close> show ?thesis by simp
      next
        case False
        with vis c v' \<open>c = k\<close> show ?thesis by simp
      qed
    next
      case False
      with c ne vis have "int c \<in> set (visited_classes p)" by simp
      with v' show ?thesis by simp
    qed
  qed
  with ok' have "inv p' (nos[k := remove1 x (nos ! k)]) (yess[k := x # yess ! k])"
    by (simp add: inv_def inv_at_iff)
  with so show ?thesis by blast
qed

subsection \<open>\<^verbatim>\<open>Add\<close> and \<^verbatim>\<open>Move\<close>\<close>

lemma Add_ok:
  assumes w: "classes_ok p nos yess" and xl: "x < length (elements p)"
    and k: "k < length (classes p)"
    and fresh: "x \<notin> set (concat nos)" "x \<notin> set (concat yess)"
  shows "\<exists>p'. Add p (int x) (int k) = Inr p' \<and> classes_ok p' (nos[k := x # nos ! k]) yess \<and>
               visited_classes p' = visited_classes p \<and> yes_counter p' = yes_counter p"
proof -
  let ?es = "elements p" and ?cs = "classes p" and ?yc = "yes_counter p"
  let ?no = "nos ! k" and ?ys = "yess ! k" and ?cl = "classes p ! k"
  from classes_ok_length[OF w] have ln: "length nos = length ?cs" "length yess = length ?cs"
    by simp_all
  note ok = classes_ok_class[OF w]
  have nx: "x \<notin> set (nos ! c)" "x \<notin> set (yess ! c)" if "c < length ?cs" for c
    using fresh that ln unfolding in_concat_nth by auto
  have okk: "class_ok ?es ?yc ?cl k ?no ?ys" using ok k .
  then have dno: "dll ?es (- 1) (no_head ?cl) ?no"
    and dys: "dll ?es (- 1) (yes_head ?cl) ?ys"
    and sz: "size_c ?cl = int (length ?no) + int (length ?ys)"
    and ysz: "yes_size ?cl = int (length ?ys)"
    and cno: "\<forall>i\<in>set ?no. class_id (?es ! i) = int k"
    and cys: "\<forall>i\<in>set ?ys. class_id (?es ! i) = int k \<and> yes (?es ! i) = ?yc"
    by (simp_all add: class_ok_def)
  have disj: "set ?no \<inter> set ?ys = {}" using class_ok_disjoint[OF okk] .
  from link_prev_dll[OF dno xl nx(1)[OF k]] obtain es1 where
    lp: "link_prev ?es (no_head ?cl) (int x) = Inr es1" and
    l1: "length es1 = length ?es" and
    f1: "\<forall>i. i \<notin> set ?no \<longrightarrow> es1 ! i = ?es ! i" and
    g1: "\<forall>i. class_id (es1 ! i) = class_id (?es ! i) \<and> yes (es1 ! i) = yes (?es ! i)" and
    push: "\<forall>el. next_element el = no_head ?cl \<longrightarrow> prev_element el = - 1 \<longrightarrow>
                 dll (es1[x := el]) (- 1) (int x) (x # ?no)"
    by blast
  define el :: "'a word Element" where
    "el = \<lparr>class_id = int k, yes = 0, next_element = no_head ?cl, prev_element = - 1\<rparr>"
  define es2 where "es2 = es1[x := el]"
  define cl' where "cl' = ?cl\<lparr>size_c := size_c ?cl + 1, no_head := int x\<rparr>"
  define p' where "p' = p\<lparr>elements := es2, classes := ?cs[k := cl']\<rparr>"
  have ad: "Add p (int x) (int k) = Inr p'"
    using xl k lp by (simp add: Add_def Let_def valid_index_def p'_def es2_def el_def cl'_def)
  have l2: "length es2 = length ?es" using l1 by (simp add: es2_def)
  have A: "es2 ! i = ?es ! i" if "i \<notin> set ?no" "i \<noteq> x" for i
    using that f1 by (simp add: es2_def)
  have B: "class_id (es2 ! i) = class_id (?es ! i) \<and> yes (es2 ! i) = yes (?es ! i)"
    if "i \<noteq> x" for i
    using that g1 by (simp add: es2_def)
  have C: "class_id (es2 ! x) = int k"
    using xl l1 by (simp add: es2_def el_def)
  have "next_element el = no_head ?cl" "prev_element el = - 1" by (simp_all add: el_def)
  with push have d2no: "dll es2 (- 1) (int x) (x # ?no)" unfolding es2_def by blast
  have "\<forall>i\<in>set ?ys. es2 ! i = ?es ! i"
  proof
    fix i assume i: "i \<in> set ?ys"
    with disj have "i \<notin> set ?no" by blast
    moreover from i nx(2)[OF k] have "i \<noteq> x" by blast
    ultimately show "es2 ! i = ?es ! i" by (rule A)
  qed
  with dys l2 dll_same[of es2 ?es ?ys "- 1" "yes_head ?cl"]
  have d2ys: "dll es2 (- 1) (yes_head ?cl) ?ys" by simp
  have okk': "class_ok es2 ?yc cl' k (x # ?no) ?ys"
  proof (rule class_okI)
    show "dll es2 (- 1) (no_head cl') (x # ?no)" using d2no by (simp add: cl'_def)
    show "dll es2 (- 1) (yes_head cl') ?ys" using d2ys by (simp add: cl'_def)
    show "size_c cl' = int (length (x # ?no)) + int (length ?ys)"
      using sz by (simp add: cl'_def)
    show "yes_size cl' = int (length ?ys)" using ysz by (simp add: cl'_def)
    show "set (x # ?no) \<inter> set ?ys = {}" using disj nx(2)[OF k] by simp
  next
    fix i assume i: "i \<in> set (x # ?no)"
    show "class_id (es2 ! i) = int k"
    proof (cases "i = x")
      case True
      with C show ?thesis by simp
    next
      case False
      with i have "i \<in> set ?no" by simp
      with cno B[OF False] show ?thesis by simp
    qed
  next
    fix i assume i: "i \<in> set ?ys"
    with nx(2)[OF k] have "i \<noteq> x" by blast
    with B[of i] cys i show "class_id (es2 ! i) = int k \<and> yes (es2 ! i) = ?yc" by simp
  qed
  have oko: "class_ok es2 ?yc (?cs ! c) c (nos ! c) (yess ! c)" if "c < length ?cs" "c \<noteq> k" for c
  proof (rule class_ok_same[OF ok[OF that(1)] l2])
    from class_ok_other[OF ok[OF that(1)] okk that(2)] nx[OF that(1)]
    show "\<forall>i\<in>set (nos ! c) \<union> set (yess ! c). es2 ! i = ?es ! i"
      using A by blast
  qed
  have w': "classes_ok p' (nos[k := x # ?no]) yess"
  proof (rule classes_okI)
    show "length (nos[k := x # ?no]) = length (classes p')" using ln by (simp add: p'_def)
    show "length yess = length (classes p')" using ln by (simp add: p'_def)
  next
    fix c assume "c < length (classes p')"
    then have c: "c < length ?cs" by (simp add: p'_def)
    show "class_ok (elements p') (yes_counter p') (classes p' ! c) c
            (nos[k := x # ?no] ! c) (yess ! c)"
    proof (cases "c = k")
      case True
      with okk' k ln show ?thesis by (simp add: p'_def)
    next
      case False
      with oko[OF c] show ?thesis by (simp add: p'_def)
    qed
  qed
  have "visited_classes p' = visited_classes p" "yes_counter p' = ?yc" by (simp_all add: p'_def)
  with ad w' show ?thesis by blast
qed

lemma excise_ok:
  assumes w: "classes_ok p nos yess" and k: "k < length (classes p)" and x: "x \<in> set (nos ! k)"
  shows "\<exists>es1 cs1.
           excise (elements p)
             ((classes p)[k := (classes p ! k)\<lparr>size_c := size_c (classes p ! k) - 1\<rparr>])
             (int x) k = Inr (es1, cs1) \<and>
           classes_ok (p\<lparr>elements := es1, classes := cs1\<rparr>) (nos[k := remove1 x (nos ! k)]) yess"
proof -
  let ?es = "elements p" and ?cs = "classes p" and ?yc = "yes_counter p"
  let ?no = "nos ! k" and ?ys = "yess ! k" and ?cl = "classes p ! k"
  let ?csd = "?cs[k := ?cl\<lparr>size_c := size_c ?cl - 1\<rparr>]"
  from classes_ok_length[OF w] have ln: "length nos = length ?cs" "length yess = length ?cs"
    by simp_all
  note ok = classes_ok_class[OF w]
  have okk: "class_ok ?es ?yc ?cl k ?no ?ys" using ok k .
  then have dno: "dll ?es (- 1) (no_head ?cl) ?no"
    and dys: "dll ?es (- 1) (yes_head ?cl) ?ys"
    and sz: "size_c ?cl = int (length ?no) + int (length ?ys)"
    and ysz: "yes_size ?cl = int (length ?ys)"
    and cno: "\<forall>i\<in>set ?no. class_id (?es ! i) = int k"
    and cys: "\<forall>i\<in>set ?ys. class_id (?es ! i) = int k \<and> yes (?es ! i) = ?yc"
    by (simp_all add: class_ok_def)
  have disj: "set ?no \<inter> set ?ys = {}" using class_ok_disjoint[OF okk] .
  have hd: "no_head (?csd ! k) = no_head ?cl" using k by simp
  from excise_dll[OF dno x hd] obtain es1 h' where
    ex: "excise ?es ?csd (int x) k = Inr (es1, ?csd[k := (?csd ! k)\<lparr>no_head := h'\<rparr>])" and
    d1: "dll es1 (- 1) h' (remove1 x ?no)" and
    l1: "length es1 = length ?es" and
    f1: "\<forall>i. i \<notin> set (remove1 x ?no) \<longrightarrow> es1 ! i = ?es ! i" and
    g1: "\<forall>i. class_id (es1 ! i) = class_id (?es ! i) \<and> yes (es1 ! i) = yes (?es ! i)"
    by blast
  define cl' where "cl' = ?cl\<lparr>size_c := size_c ?cl - 1, no_head := h'\<rparr>"
  define p' where "p' = p\<lparr>elements := es1, classes := ?cs[k := cl']\<rparr>"
  have cs1: "?csd[k := (?csd ! k)\<lparr>no_head := h'\<rparr>] = ?cs[k := cl']"
    using k by (simp add: cl'_def)
  have sub: "set (remove1 x ?no) \<subseteq> set ?no" by (rule set_remove1_subset)
  from x have "0 < length ?no" by (rule length_pos_if_in_set)
  with x have "Suc (length (remove1 x ?no)) = length ?no" by (simp add: length_remove1)
  then have lr: "int (length ?no) = int (length (remove1 x ?no)) + 1" by linarith
  have "\<forall>i\<in>set ?ys. es1 ! i = ?es ! i" using f1 disj sub by blast
  with dys l1 dll_same[of es1 ?es ?ys "- 1" "yes_head ?cl"]
  have dys1: "dll es1 (- 1) (yes_head ?cl) ?ys" by simp
  have okk': "class_ok es1 ?yc cl' k (remove1 x ?no) ?ys"
  proof (rule class_okI)
    show "dll es1 (- 1) (no_head cl') (remove1 x ?no)" using d1 by (simp add: cl'_def)
    show "dll es1 (- 1) (yes_head cl') ?ys" using dys1 by (simp add: cl'_def)
    show "size_c cl' = int (length (remove1 x ?no)) + int (length ?ys)"
      using sz lr by (simp add: cl'_def)
    show "yes_size cl' = int (length ?ys)" using ysz by (simp add: cl'_def)
    show "set (remove1 x ?no) \<inter> set ?ys = {}" using sub disj by blast
  next
    fix i assume i: "i \<in> set (remove1 x ?no)"
    with sub have ino: "i \<in> set ?no" by blast
    with cno g1 show "class_id (es1 ! i) = int k" by simp
  next
    fix i assume i: "i \<in> set ?ys"
    with cys g1 show "class_id (es1 ! i) = int k \<and> yes (es1 ! i) = ?yc" by simp
  qed
  have oko: "class_ok es1 ?yc (?cs ! c) c (nos ! c) (yess ! c)" if "c < length ?cs" "c \<noteq> k" for c
  proof (rule class_ok_same[OF ok[OF that(1)] l1])
    from class_ok_other[OF ok[OF that(1)] okk that(2)]
    show "\<forall>i\<in>set (nos ! c) \<union> set (yess ! c). es1 ! i = ?es ! i"
      using f1 sub by blast
  qed
  have w': "classes_ok p' (nos[k := remove1 x ?no]) yess"
  proof (rule classes_okI)
    show "length (nos[k := remove1 x ?no]) = length (classes p')" using ln by (simp add: p'_def)
    show "length yess = length (classes p')" using ln by (simp add: p'_def)
  next
    fix c assume "c < length (classes p')"
    then have c: "c < length ?cs" by (simp add: p'_def)
    show "class_ok (elements p') (yes_counter p') (classes p' ! c) c
            (nos[k := remove1 x ?no] ! c) (yess ! c)"
    proof (cases "c = k")
      case True
      with okk' k ln show ?thesis by (simp add: p'_def)
    next
      case False
      with oko[OF c] show ?thesis by (simp add: p'_def)
    qed
  qed
  with ex cs1 show ?thesis by (simp add: p'_def)
qed

lemma Move_ok:
  assumes w: "classes_ok p nos yess" and k: "k < length (classes p)" and x: "x \<in> set (nos ! k)"
    and yx: "yes (elements p ! x) \<noteq> yes_counter p"
    and ys: "yess ! k = []" and c: "c < length (classes p)"
  shows "\<exists>p'. Move p (int x) (int c) = Inr p' \<and>
           classes_ok p' ((nos[k := remove1 x (nos ! k)])
                    [c := x # (nos[k := remove1 x (nos ! k)]) ! c]) yess \<and>
           visited_classes p' = visited_classes p \<and> yes_counter p' = yes_counter p"
proof -
  let ?es = "elements p" and ?cs = "classes p" and ?yc = "yes_counter p"
  let ?no = "nos ! k" and ?cl = "classes p ! k"
  let ?nos1 = "nos[k := remove1 x ?no]"
  from classes_ok_length[OF w] have ln: "length nos = length ?cs" "length yess = length ?cs"
    by simp_all
  note ok = classes_ok_class[OF w]
  have okk: "class_ok ?es ?yc ?cl k ?no (yess ! k)" using ok k .
  then have dno: "dll ?es (- 1) (no_head ?cl) ?no"
    and sz: "size_c ?cl = int (length ?no) + int (length (yess ! k))"
    and ysz: "yes_size ?cl = int (length (yess ! k))"
    and cno: "\<forall>i\<in>set ?no. class_id (?es ! i) = int k"
    by (simp_all add: class_ok_def)
  from dll_bound[OF dno x] have xl: "x < length ?es" .
  from cno x have cx: "class_id (?es ! x) = int k" by simp
  from x have "0 < length ?no" by (rule length_pos_if_in_set)
  with sz ys ysz have chk: "0 \<le> size_c ?cl - 1" "yes_size ?cl = 0" by simp_all
  from excise_ok[OF w k x] obtain es1 cs1 where
    ex: "excise ?es (?cs[k := ?cl\<lparr>size_c := size_c ?cl - 1\<rparr>]) (int x) k = Inr (es1, cs1)" and
    w1: "classes_ok (p\<lparr>elements := es1, classes := cs1\<rparr>) ?nos1 yess"
    by blast
  let ?p1 = "p\<lparr>elements := es1, classes := cs1\<rparr>"
  from excise_length[OF ex] have l1: "length es1 = length ?es" "length cs1 = length ?cs"
    by simp_all
  have mv: "Move p (int x) (int c) = Add ?p1 (int x) (int c)"
    using xl yx cx k chk ex by (simp add: Move_def Let_def valid_index_def)
  have nxr: "x \<notin> set (remove1 x ?no)" using dll_distinct[OF dno] by simp
  have f1: "x \<notin> set (concat ?nos1)"
  proof
    assume "x \<in> set (concat ?nos1)"
    then obtain j where j: "j < length ?nos1" "x \<in> set (?nos1 ! j)"
      unfolding in_concat_nth by auto
    show False
    proof (cases "j = k")
      case True
      with j nxr k ln show False by simp
    next
      case False
      with j have "x \<in> set (nos ! j)" "j < length ?cs" using ln by simp_all
      with classes_ok_member_unique[OF w k x, of j] False show False by simp
    qed
  qed
  have f2: "x \<notin> set (concat yess)"
  proof
    assume "x \<in> set (concat yess)"
    then obtain j where j: "j < length yess" "x \<in> set (yess ! j)"
      unfolding in_concat_nth by auto
    with classes_ok_member_unique[OF w k x, of j] ln show False by simp
  qed
  from Add_ok[OF w1 _ _ f1 f2, of c] xl c l1 mv show ?thesis by simp
qed

lemma Move_class_out_of_range:
  assumes "\<not> valid_index (classes p) c"
  shows "Move p e c \<noteq> Inr p'"
proof
  assume m: "Move p e c = Inr p'"
  then obtain es' cs' k oc where
    ex: "excise (elements p) ((classes p)[k := oc]) e k = Inr (es', cs')" and
    a: "Add (p\<lparr>elements := es', classes := cs'\<rparr>) e c = Inr p'"
    by (auto simp: Move_def Let_def split: if_splits sum.splits)
  from excise_length[OF ex] assms have "\<not> valid_index cs' c" by (simp add: valid_index_def)
  with a show False by (simp add: Add_def)
qed

subsection \<open>\<^verbatim>\<open>SplitRefine\<close> and the loop of \<^verbatim>\<open>FinalizeSplit\<close>\<close>

lemma relabel_dll:
  "dll es prv h xs \<Longrightarrow>
   \<exists>es'. relabel es h n = Some (Inr es') \<and> length es' = length es \<and>
         (\<forall>i. es' ! i = (if i \<in> set xs then (es ! i)\<lparr>class_id := n\<rparr> else es ! i))"
proof (induction xs arbitrary: es prv h)
  case Nil
  then show ?case by (simp add: relabel.simps)
next
  case (Cons x xs)
  let ?es1 = "es[x := (es ! x)\<lparr>class_id := n\<rparr>]"
  from Cons.prems have d: "h = int x" "x < length es"
    "dll es (int x) (next_element (es ! x)) xs" by simp_all
  have "dll ?es1 (int x) (next_element (es ! x)) xs = dll es (int x) (next_element (es ! x)) xs"
    by (rule dll_frame) (use d in \<open>simp_all add: nth_list_update\<close>)
  with d have d1: "dll ?es1 (int x) (next_element (es ! x)) xs" by simp
  from Cons.IH[OF d1] obtain es' where
    r: "relabel ?es1 (next_element (es ! x)) n = Some (Inr es')" and
    l: "length es' = length ?es1" and
    f: "\<forall>i. es' ! i = (if i \<in> set xs then (?es1 ! i)\<lparr>class_id := n\<rparr> else ?es1 ! i)"
    by blast
  have "relabel es h n = relabel ?es1 (next_element (es ! x)) n"
    using d by (subst relabel.simps) (simp add: valid_index_def)
  with r have r': "relabel es h n = Some (Inr es')" by simp
  have "es' ! i = (if i \<in> set (x # xs) then (es ! i)\<lparr>class_id := n\<rparr> else es ! i)" for i
    using f d(2) by (cases "i = x") simp_all
  with r' l show ?case by (intro exI[of _ es']) simp
qed

lemma SplitRefine_no_split:
  assumes "k < length (classes p)"
    "size_c (classes p ! k) - yes_size (classes p ! k) = 0" "no_head (classes p ! k) < 0"
  shows "SplitRefine p (int k) =
           Some (Inr (p\<lparr>classes := (classes p)[k := (classes p ! k)
                          \<lparr>yes_size := 0, no_head := yes_head (classes p ! k),
                           yes_head := - 1\<rparr>]\<rparr>, - 1))"
  using assms by (simp add: SplitRefine_def valid_index_def Let_def)

lemma SplitRefine_split_no:
  assumes "k < length (classes p)"
    "size_c (classes p ! k) - yes_size (classes p ! k) \<noteq> 0"
    "size_c (classes p ! k) - yes_size (classes p ! k) < yes_size (classes p ! k)"
    "elements p \<noteq> []"
    "relabel (elements p) (no_head (classes p ! k)) (int (length (classes p))) = Some (Inr es')"
  shows "SplitRefine p (int k) =
           Some (Inr (p\<lparr>elements := es',
                        classes := (classes p @ [Class_new])
                          [k := (classes p ! k)
                             \<lparr>size_c := yes_size (classes p ! k), yes_size := 0,
                              no_head := yes_head (classes p ! k), yes_head := - 1\<rparr>,
                           length (classes p) := Class_new
                             \<lparr>size_c := size_c (classes p ! k) - yes_size (classes p ! k),
                              no_head := no_head (classes p ! k)\<rparr>]\<rparr>,
                      int (length (classes p))))"
  using assms
  by (simp add: SplitRefine_def valid_index_def Let_def resize_def nth_append)

lemma SplitRefine_split_yes:
  assumes "k < length (classes p)"
    "size_c (classes p ! k) - yes_size (classes p ! k) \<noteq> 0"
    "\<not> size_c (classes p ! k) - yes_size (classes p ! k) < yes_size (classes p ! k)"
    "elements p \<noteq> []"
    "relabel (elements p) (yes_head (classes p ! k)) (int (length (classes p))) = Some (Inr es')"
  shows "SplitRefine p (int k) =
           Some (Inr (p\<lparr>elements := es',
                        classes := (classes p @ [Class_new])
                          [k := (classes p ! k)
                             \<lparr>size_c := size_c (classes p ! k) - yes_size (classes p ! k),
                              yes_size := 0, yes_head := - 1\<rparr>,
                           length (classes p) := Class_new
                             \<lparr>size_c := yes_size (classes p ! k),
                              no_head := yes_head (classes p ! k)\<rparr>]\<rparr>,
                      int (length (classes p))))"
  using assms
  by (simp add: SplitRefine_def valid_index_def Let_def resize_def nth_append)

lemma SplitRefine_valid:
  "SplitRefine p c = Some (Inr r) \<Longrightarrow> valid_index (classes p) c"
  by (auto simp: SplitRefine_def split: if_splits)

lemma SplitRefine_ok:
  assumes w: "classes_ok p nos yess" and k: "k < length (classes p)"
  shows "\<exists>p'. SplitRefine p (int k)
                = Some (Inr (p', if nos ! k = [] then - 1 else int (length (classes p)))) \<and>
              classes_ok p' (split_nos nos yess k) (split_yess nos yess k) \<and>
              yes_counter p' = yes_counter p \<and> visited_classes p' = visited_classes p \<and>
              (\<forall>c<length (classes p). c \<noteq> k \<longrightarrow> classes p' ! c = classes p ! c)"
proof -
  let ?es = "elements p" and ?cs = "classes p" and ?yc = "yes_counter p"
  let ?no = "nos ! k" and ?ys = "yess ! k" and ?cl = "classes p ! k"
  let ?n = "length (classes p)"
  from classes_ok_length[OF w] have ln: "length nos = ?n" "length yess = ?n" by simp_all
  note ok = classes_ok_class[OF w]
  have okk: "class_ok ?es ?yc ?cl k ?no ?ys" using ok k .
  then have dno: "dll ?es (- 1) (no_head ?cl) ?no"
    and dys: "dll ?es (- 1) (yes_head ?cl) ?ys"
    and sz: "size_c ?cl = int (length ?no) + int (length ?ys)"
    and ysz: "yes_size ?cl = int (length ?ys)"
    and cno: "\<forall>i\<in>set ?no. class_id (?es ! i) = int k"
    and cys: "\<forall>i\<in>set ?ys. class_id (?es ! i) = int k \<and> yes (?es ! i) = ?yc"
    by (simp_all add: class_ok_def)
  have disj: "set ?no \<inter> set ?ys = {}" using class_ok_disjoint[OF okk] .
  have oth: "(set (nos ! c) \<union> set (yess ! c)) \<inter> (set ?no \<union> set ?ys) = {}"
    if "c < ?n" "c \<noteq> k" for c
    using class_ok_other[OF ok[OF that(1)] okk that(2)] .
  show ?thesis
  proof (cases "?no = []")
    case True
    define cl' where "cl' = ?cl\<lparr>yes_size := 0, no_head := yes_head ?cl, yes_head := - 1\<rparr>"
    define p' where "p' = p\<lparr>classes := ?cs[k := cl']\<rparr>"
    from True dno sz ysz have "size_c ?cl - yes_size ?cl = 0" "no_head ?cl < 0" by simp_all
    from SplitRefine_no_split[OF k this]
    have sr: "SplitRefine p (int k) = Some (Inr (p', - 1))" by (simp add: p'_def cl'_def)
    have cl'eq: "cl' = \<lparr>size_c = int (length ?ys), yes_size = 0, no_head = yes_head ?cl,
                         yes_head = - 1\<rparr>"
      using sz True by (simp add: cl'_def)
    have okk': "class_ok ?es ?yc cl' k ?ys []"
      unfolding cl'eq by (rule class_ok_single[OF dys]) (use cys in simp)
    have "classes_ok p' (nos[k := ?ys]) (yess[k := []])"
    proof (rule classes_okI)
      show "length (nos[k := ?ys]) = length (classes p')" using ln by (simp add: p'_def)
      show "length (yess[k := []]) = length (classes p')" using ln by (simp add: p'_def)
    next
      fix c assume "c < length (classes p')"
      then have c: "c < ?n" by (simp add: p'_def)
      show "class_ok (elements p') (yes_counter p') (classes p' ! c) c
              (nos[k := ?ys] ! c) (yess[k := []] ! c)"
      proof (cases "c = k")
        case True
        with okk' k ln show ?thesis by (simp add: p'_def)
      next
        case False
        with ok[OF c] show ?thesis by (simp add: p'_def)
      qed
    qed
    with sr True show ?thesis
      by (intro exI[of _ p']) (simp add: split_nos_def split_yess_def p'_def)
  next
    case False
    then obtain x0 where "x0 \<in> set ?no" by (cases ?no) auto
    with dll_bound[OF dno] have ene: "?es \<noteq> []" by fastforce
    from False sz ysz have ns0: "size_c ?cl - yes_size ?cl \<noteq> 0" by simp
    show ?thesis
    proof (cases "length ?no < length ?ys")
      case True
      from relabel_dll[OF dno, of "int ?n"] obtain es' where
        rl: "relabel ?es (no_head ?cl) (int ?n) = Some (Inr es')" and
        l': "length es' = length ?es" and
        r': "\<forall>i. es' ! i = (if i \<in> set ?no then (?es ! i)\<lparr>class_id := int ?n\<rparr> else ?es ! i)"
        by blast
      define old' where "old' = ?cl\<lparr>size_c := yes_size ?cl, yes_size := 0,
                                      no_head := yes_head ?cl, yes_head := - 1\<rparr>"
      define new' where "new' = Class_new\<lparr>size_c := size_c ?cl - yes_size ?cl,
                                            no_head := no_head ?cl\<rparr>"
      have old'eq: "old' = \<lparr>size_c = int (length ?ys), yes_size = 0,
                               no_head = yes_head ?cl, yes_head = - 1\<rparr>"
        using ysz by (simp add: old'_def)
      have new'eq: "new' = \<lparr>size_c = int (length ?no), yes_size = 0,
                               no_head = no_head ?cl, yes_head = - 1\<rparr>"
        using sz ysz by (simp add: new'_def Class_new_def)
      define p' where "p' = p\<lparr>elements := es',
                                classes := (?cs @ [Class_new])[k := old', ?n := new']\<rparr>"
      from True sz ysz have lt: "size_c ?cl - yes_size ?cl < yes_size ?cl" by simp
      from SplitRefine_split_no[OF k ns0 lt ene rl]
      have sr: "SplitRefine p (int k) = Some (Inr (p', int ?n))"
        by (simp add: p'_def old'_def new'_def)
      have okold: "class_ok es' ?yc old' k ?ys []"
        unfolding old'eq
      proof (rule class_ok_single)
        show "dll es' (- 1) (yes_head ?cl) ?ys" by (rule dll_relabel[OF dys l' r'])
        show "\<forall>i\<in>set ?ys. class_id (es' ! i) = int k"
        proof
          fix i assume i: "i \<in> set ?ys"
          with disj have "i \<notin> set ?no" by blast
          with r' cys i show "class_id (es' ! i) = int k" by simp
        qed
      qed
      have oknew: "class_ok es' ?yc new' ?n ?no []"
        unfolding new'eq
      proof (rule class_ok_single)
        show "dll es' (- 1) (no_head ?cl) ?no" by (rule dll_relabel[OF dno l' r'])
        show "\<forall>i\<in>set ?no. class_id (es' ! i) = int ?n"
          using r' by simp
      qed
      have okoth: "class_ok es' ?yc (?cs ! c) c (nos ! c) (yess ! c)" if "c < ?n" "c \<noteq> k" for c
        by (rule class_ok_relabel[OF ok[OF that(1)] l' r']) (use oth[OF that] in blast)
      have "classes_ok p' (nos[k := ?ys] @ [?no]) (yess[k := []] @ [[]])"
      proof (rule classes_okI)
        show "length (nos[k := ?ys] @ [?no]) = length (classes p')" using ln by (simp add: p'_def)
        show "length (yess[k := []] @ [[]]) = length (classes p')" using ln by (simp add: p'_def)
      next
        fix c assume "c < length (classes p')"
        then have c: "c < Suc ?n" by (simp add: p'_def)
        consider "c = k" | "c = ?n" | "c < ?n" "c \<noteq> k" using c by linarith
        then show "class_ok (elements p') (yes_counter p') (classes p' ! c) c
                ((nos[k := ?ys] @ [?no]) ! c) ((yess[k := []] @ [[]]) ! c)"
        proof cases
          case 1
          with okold k ln show ?thesis by (simp add: p'_def nth_append)
        next
          case 2
          with oknew k ln show ?thesis by (simp add: p'_def nth_append)
        next
          case 3
          with okoth[OF 3] ln show ?thesis by (simp add: p'_def nth_append)
        qed
      qed
      moreover have "\<forall>c<?n. c \<noteq> k \<longrightarrow> classes p' ! c = ?cs ! c"
        by (simp add: p'_def nth_append)
      ultimately show ?thesis using sr True False
        by (intro exI[of _ p']) (simp add: split_nos_def split_yess_def p'_def)
    next
      case nlt: False
      from relabel_dll[OF dys, of "int ?n"] obtain es' where
        rl: "relabel ?es (yes_head ?cl) (int ?n) = Some (Inr es')" and
        l': "length es' = length ?es" and
        r': "\<forall>i. es' ! i = (if i \<in> set ?ys then (?es ! i)\<lparr>class_id := int ?n\<rparr> else ?es ! i)"
        by blast
      define old' where "old' = ?cl\<lparr>size_c := size_c ?cl - yes_size ?cl, yes_size := 0,
                                      yes_head := - 1\<rparr>"
      define new' where "new' = Class_new\<lparr>size_c := yes_size ?cl,
                                            no_head := yes_head ?cl\<rparr>"
      have old'eq: "old' = \<lparr>size_c = int (length ?no), yes_size = 0,
                               no_head = no_head ?cl, yes_head = - 1\<rparr>"
        using sz ysz by (simp add: old'_def)
      have new'eq: "new' = \<lparr>size_c = int (length ?ys), yes_size = 0,
                               no_head = yes_head ?cl, yes_head = - 1\<rparr>"
        using ysz by (simp add: new'_def Class_new_def)
      define p' where "p' = p\<lparr>elements := es',
                                classes := (?cs @ [Class_new])[k := old', ?n := new']\<rparr>"
      from nlt sz ysz have lt: "\<not> size_c ?cl - yes_size ?cl < yes_size ?cl" by simp
      from SplitRefine_split_yes[OF k ns0 lt ene rl]
      have sr: "SplitRefine p (int k) = Some (Inr (p', int ?n))"
        by (simp add: p'_def old'_def new'_def)
      have okold: "class_ok es' ?yc old' k ?no []"
        unfolding old'eq
      proof (rule class_ok_single)
        show "dll es' (- 1) (no_head ?cl) ?no" by (rule dll_relabel[OF dno l' r'])
        show "\<forall>i\<in>set ?no. class_id (es' ! i) = int k"
        proof
          fix i assume i: "i \<in> set ?no"
          with disj have "i \<notin> set ?ys" by blast
          with r' cno i show "class_id (es' ! i) = int k" by simp
        qed
      qed
      have oknew: "class_ok es' ?yc new' ?n ?ys []"
        unfolding new'eq
      proof (rule class_ok_single)
        show "dll es' (- 1) (yes_head ?cl) ?ys" by (rule dll_relabel[OF dys l' r'])
        show "\<forall>i\<in>set ?ys. class_id (es' ! i) = int ?n"
          using r' by simp
      qed
      have okoth: "class_ok es' ?yc (?cs ! c) c (nos ! c) (yess ! c)" if "c < ?n" "c \<noteq> k" for c
        by (rule class_ok_relabel[OF ok[OF that(1)] l' r']) (use oth[OF that] in blast)
      have "classes_ok p' (nos @ [?ys]) (yess[k := []] @ [[]])"
      proof (rule classes_okI)
        show "length (nos @ [?ys]) = length (classes p')" using ln by (simp add: p'_def)
        show "length (yess[k := []] @ [[]]) = length (classes p')" using ln by (simp add: p'_def)
      next
        fix c assume "c < length (classes p')"
        then have c: "c < Suc ?n" by (simp add: p'_def)
        consider "c = k" | "c = ?n" | "c < ?n" "c \<noteq> k" using c by linarith
        then show "class_ok (elements p') (yes_counter p') (classes p' ! c) c
                ((nos @ [?ys]) ! c) ((yess[k := []] @ [[]]) ! c)"
        proof cases
          case 1
          with okold k ln show ?thesis by (simp add: p'_def nth_append)
        next
          case 2
          with oknew k ln show ?thesis by (simp add: p'_def nth_append)
        next
          case 3
          with okoth[OF 3] ln show ?thesis by (simp add: p'_def nth_append)
        qed
      qed
      moreover have "\<forall>c<?n. c \<noteq> k \<longrightarrow> classes p' ! c = ?cs ! c"
        by (simp add: p'_def nth_append)
      ultimately show ?thesis using sr nlt False
        by (intro exI[of _ p']) (simp add: split_nos_def split_yess_def p'_def)
    qed
  qed
qed

subsection \<open>Lists of lists\<close>

lemma concat_update_set:
  assumes "k < length ls"
  shows "x \<in> set (concat (ls[k := l])) \<longleftrightarrow>
           x \<in> set l \<or> (\<exists>c<length ls. c \<noteq> k \<and> x \<in> set (ls ! c))"
proof -
  have "x \<in> set (concat (ls[k := l])) \<longleftrightarrow> (\<exists>c<length ls. x \<in> set (ls[k := l] ! c))"
    unfolding in_concat_nth by simp
  also have "\<dots> \<longleftrightarrow> x \<in> set l \<or> (\<exists>c<length ls. c \<noteq> k \<and> x \<in> set (ls ! c))"
    using assms by (metis nth_list_update_eq nth_list_update_neq)
  finally show ?thesis .
qed

lemma concat_cons_set:
  assumes "k < length ls"
  shows "set (concat (ls[k := x # ls ! k])) = insert x (set (concat ls))"
proof (rule set_eqI)
  fix y
  have "y \<in> set (concat (ls[k := x # ls ! k])) \<longleftrightarrow>
          y \<in> set (x # ls ! k) \<or> (\<exists>c<length ls. c \<noteq> k \<and> y \<in> set (ls ! c))"
    by (rule concat_update_set[OF assms])
  then have a: "y \<in> set (concat (ls[k := x # ls ! k])) \<longleftrightarrow>
          y = x \<or> y \<in> set (ls ! k) \<or> (\<exists>c<length ls. c \<noteq> k \<and> y \<in> set (ls ! c))"
    by simp
  have b: "y \<in> set (concat ls) \<longleftrightarrow> (\<exists>c<length ls. y \<in> set (ls ! c))"
    by (rule in_concat_nth)
  show "y \<in> set (concat (ls[k := x # ls ! k])) \<longleftrightarrow> y \<in> insert x (set (concat ls))"
    unfolding insert_iff a b using assms by blast
qed

lemma concat_remove1_set:
  assumes "k < length ls" "x \<in> set (ls ! k)"
  shows "insert x (set (concat (ls[k := remove1 x (ls ! k)]))) = set (concat ls)"
proof (rule set_eqI)
  fix y
  have r: "y \<in> set (remove1 x (ls ! k)) \<or> y = x \<longleftrightarrow> y \<in> set (ls ! k)"
    using assms(2) by (metis in_set_remove1 notin_set_remove1)
  have a: "y \<in> set (concat (ls[k := remove1 x (ls ! k)])) \<longleftrightarrow>
          y \<in> set (remove1 x (ls ! k)) \<or> (\<exists>c<length ls. c \<noteq> k \<and> y \<in> set (ls ! c))"
    by (rule concat_update_set[OF assms(1)])
  have b: "y \<in> set (concat ls) \<longleftrightarrow> (\<exists>c<length ls. y \<in> set (ls ! c))"
    by (rule in_concat_nth)
  show "y \<in> insert x (set (concat (ls[k := remove1 x (ls ! k)]))) \<longleftrightarrow> y \<in> set (concat ls)"
    unfolding insert_iff a b using assms r by blast
qed

lemma concat_replace_set:
  assumes "k < length ls"
  shows "set (concat (ls[k := l])) \<union> set (ls ! k) = set (concat ls) \<union> set l"
proof (rule set_eqI)
  fix y
  have a: "y \<in> set (concat (ls[k := l])) \<longleftrightarrow>
          y \<in> set l \<or> (\<exists>c<length ls. c \<noteq> k \<and> y \<in> set (ls ! c))"
    by (rule concat_update_set[OF assms])
  have b: "y \<in> set (concat ls) \<longleftrightarrow> (\<exists>c<length ls. y \<in> set (ls ! c))"
    by (rule in_concat_nth)
  show "y \<in> set (concat (ls[k := l])) \<union> set (ls ! k) \<longleftrightarrow> y \<in> set (concat ls) \<union> set l"
    unfolding Un_iff a b using assms by blast
qed

lemma nth_subset_concat: "k < length ls \<Longrightarrow> set (ls ! k) \<subseteq> set (concat ls)"
  unfolding subset_iff in_concat_nth by blast

lemma split_lists_set:
  assumes "k < length nos" "length yess = length nos"
  shows "set (concat (split_nos nos yess k)) \<union> set (concat (split_yess nos yess k))
           = set (concat nos) \<union> set (concat yess)"
proof -
  define X where "X = set (concat (nos[k := yess ! k]))"
  define Y where "Y = set (concat (yess[k := []]))"
  define N where "N = set (concat nos)"
  define YS where "YS = set (concat yess)"
  define no where "no = set (nos ! k)"
  define ys where "ys = set (yess ! k)"
  have a: "X \<union> no = N \<union> ys"
    unfolding X_def no_def N_def ys_def by (rule concat_replace_set[OF assms(1)])
  from assms have k': "k < length yess" by simp
  have b: "Y \<union> ys = YS"
    using concat_replace_set[OF k', of "[]"] by (simp add: Y_def ys_def YS_def)
  have alg1: "X \<union> no \<union> Y = N \<union> YS" using a b by blast
  have alg2: "N \<union> ys \<union> Y = N \<union> YS" using b by blast
  show ?thesis
  proof (cases "nos ! k = []")
    case True
    then have "no = {}" by (simp add: no_def)
    with alg1 have "X \<union> Y = N \<union> YS" by simp
    with True show ?thesis
      by (simp add: split_nos_def split_yess_def X_def Y_def N_def YS_def)
  next
    case False
    show ?thesis
    proof (cases "length (nos ! k) < length (yess ! k)")
      case True
      with False alg1 show ?thesis
        by (simp add: split_nos_def split_yess_def X_def Y_def N_def YS_def no_def)
    next
      case nlt: False
      with False alg2 show ?thesis
        by (simp add: split_nos_def split_yess_def X_def Y_def N_def YS_def ys_def)
    qed
  qed
qed


lemma split_nos_length:
  "length (split_nos nos yess k) = length nos + (if nos ! k = [] then 0 else 1)"
  by (simp add: split_nos_def)

lemma split_yess_length:
  "length (split_yess nos yess k) = length yess + (if nos ! k = [] then 0 else 1)"
  by (simp add: split_yess_def)

lemma split_other:
  assumes "c < length nos" "c \<noteq> k" "length yess = length nos"
  shows "split_nos nos yess k ! c = nos ! c \<and> split_yess nos yess k ! c = yess ! c"
  using assms by (simp add: split_nos_def split_yess_def nth_append)

lemma split_self:
  assumes "k < length nos"
  shows "split_nos nos yess k ! k = kept (nos ! k) (yess ! k)"
  using assms by (auto simp: split_nos_def kept_def nth_append)

lemma split_new:
  assumes "nos ! k \<noteq> []"
  shows "split_nos nos yess k ! length nos = moved (nos ! k) (yess ! k)"
  using assms by (simp add: split_nos_def moved_def nth_append)

lemma split_all_lists:
  assumes "distinct vs" "\<forall>v\<in>set vs. \<exists>k<length nos. v = int k" "length yess = length nos"
  shows "length (fst (split_all (nos, yess) vs))
           = length nos + length (filter (\<lambda>v. nos ! nat v \<noteq> []) vs) \<and>
         length (snd (split_all (nos, yess) vs)) = length (fst (split_all (nos, yess) vs)) \<and>
         (\<forall>c<length nos. int c \<notin> set vs \<longrightarrow>
            fst (split_all (nos, yess) vs) ! c = nos ! c) \<and>
         (\<forall>v\<in>set vs. fst (split_all (nos, yess) vs) ! nat v
                        = kept (nos ! nat v) (yess ! nat v)) \<and>
         (\<forall>j<length (filter (\<lambda>v. nos ! nat v \<noteq> []) vs).
            fst (split_all (nos, yess) vs) ! (length nos + j)
              = moved (nos ! nat (filter (\<lambda>v. nos ! nat v \<noteq> []) vs ! j))
                      (yess ! nat (filter (\<lambda>v. nos ! nat v \<noteq> []) vs ! j)))"
  using assms
proof (induction vs arbitrary: nos yess)
  case Nil
  then show ?case by simp
next
  case (Cons v vs)
  let ?n = "length nos"
  from Cons.prems(2) obtain k where k: "k < ?n" and v: "v = int k" by auto
  let ?nos1 = "split_nos nos yess k" and ?yess1 = "split_yess nos yess k"
  let ?S1 = "filter (\<lambda>v. nos ! nat v \<noteq> []) vs"
  let ?R = "fst (split_all (?nos1, ?yess1) vs)"
  have l1: "length ?nos1 = ?n + (if nos ! k = [] then 0 else 1)" by (rule split_nos_length)
  have ly1: "length ?yess1 = length ?nos1"
    using Cons.prems(3) by (simp add: split_nos_length split_yess_length)
  have vsb: "\<exists>k'<?n. v' = int k' \<and> k' \<noteq> k" if "v' \<in> set vs" for v'
    using that Cons.prems(1,2) v by auto
  have same: "?nos1 ! nat v' = nos ! nat v' \<and> ?yess1 ! nat v' = yess ! nat v'"
    if "v' \<in> set vs" for v'
  proof -
    from vsb[OF that] obtain k' where "k' < ?n" "v' = int k'" "k' \<noteq> k" by blast
    with split_other[of k' nos k yess] Cons.prems(3) show ?thesis by simp
  qed
  have filt: "filter (\<lambda>v. ?nos1 ! nat v \<noteq> []) vs = ?S1"
    by (rule filter_cong) (simp_all add: same)
  have d: "distinct vs" using Cons.prems(1) by simp
  have b: "\<forall>v\<in>set vs. \<exists>k<length ?nos1. v = int k"
  proof
    fix v' assume "v' \<in> set vs"
    from vsb[OF this] l1 show "\<exists>k<length ?nos1. v' = int k" by auto
  qed
  note IH = Cons.IH[OF d b ly1, unfolded filt]
  from IH have
    len: "length ?R = length ?nos1 + length ?S1" and
    leny: "length (snd (split_all (?nos1, ?yess1) vs)) = length ?R" and
    unt: "\<forall>c<length ?nos1. int c \<notin> set vs \<longrightarrow> ?R ! c = ?nos1 ! c" and
    kep: "\<forall>v\<in>set vs. ?R ! nat v = kept (?nos1 ! nat v) (?yess1 ! nat v)" and
    mov: "\<forall>j<length ?S1. ?R ! (length ?nos1 + j)
            = moved (?nos1 ! nat (?S1 ! j)) (?yess1 ! nat (?S1 ! j))"
    by blast+
  have kv: "int k \<notin> set vs" using Cons.prems(1) v by simp
  have nv: "int ?n \<notin> set vs" using vsb by fastforce
  have S1mem: "?S1 ! j \<in> set vs" if "j < length ?S1" for j
    using that by (metis filter_is_subset nth_mem subsetD)
  have mov': "?R ! (length ?nos1 + j) = moved (nos ! nat (?S1 ! j)) (yess ! nat (?S1 ! j))"
    if "j < length ?S1" for j
    using mov that same[OF S1mem[OF that]] by simp
  have kep': "?R ! nat v' = kept (nos ! nat v') (yess ! nat v')" if "v' \<in> set vs" for v'
    using kep that same[OF that] by simp
  have Rk: "?R ! k = kept (nos ! k) (yess ! k)"
    using unt kv k l1 split_self[OF k, of yess] by simp
  have unt': "?R ! c = nos ! c" if "c < ?n" "int c \<notin> set (v # vs)" for c
  proof -
    from that v have "c \<noteq> k" "int c \<notin> set vs" by auto
    with unt that(1) l1 split_other[of c nos k yess] Cons.prems(3) show ?thesis by simp
  qed
  show ?case
  proof (cases "nos ! k = []")
    case True
    with l1 have l1': "length ?nos1 = ?n" by simp
    from True v have S: "filter (\<lambda>v. nos ! nat v \<noteq> []) (v # vs) = ?S1" by simp
    show ?thesis
      unfolding S using len leny unt' kep' Rk mov' l1' v by (simp add: v)
  next
    case False
    with l1 have l1': "length ?nos1 = Suc ?n" by simp
    from False v have S: "filter (\<lambda>v. nos ! nat v \<noteq> []) (v # vs) = v # ?S1" by simp
    have Rn: "?R ! ?n = moved (nos ! k) (yess ! k)"
      using unt nv l1' split_new[OF False, of yess] by simp
    have new: "?R ! (?n + j) = moved (nos ! nat ((v # ?S1) ! j)) (yess ! nat ((v # ?S1) ! j))"
      if "j < length (v # ?S1)" for j
    proof (cases j)
      case 0
      with Rn v show ?thesis by simp
    next
      case (Suc j')
      with that mov'[of j'] l1' show ?thesis by simp
    qed
    show ?thesis
      unfolding S using len leny unt' kep' Rk new l1' v by (simp add: v)
  qed
qed

lemma kept_moved_length: "length (moved no ys) \<le> length (kept no ys)"
  by (simp add: kept_def moved_def)

lemma kept_Nil: "kept [] ys = ys"
  by (simp add: kept_def)

lemma FinalizeSplit_loop_None:
  "FinalizeSplit_loop p None vs = Some (Inr (p', L')) \<Longrightarrow> L' = None"
proof (induction vs arbitrary: p)
  case Nil
  then show ?case by simp
next
  case (Cons c vs)
  then show ?case
    by (auto simp: FinalizeSplit_step_def split: option.splits sum.splits)
qed

lemma FinalizeSplit_queue:
  assumes "FinalizeSplit p L = Some (Inr (p', L'))"
  shows "visited_classes p' = [] \<and>
         L' = map_option (\<lambda>q. q @ map int [length (classes p)..<length (classes p')]) L"
proof -
  from assms obtain p1 where
    lp: "FinalizeSplit_loop p L (visited_classes p) = Some (Inr (p1, L'))" and
    p': "p' = p1\<lparr>visited_classes := [], yes_counter := yes_counter p1 + 1\<rparr>"
    by (auto simp: FinalizeSplit_def split: option.splits sum.splits)
  show ?thesis
  proof (cases L)
    case None
    from lp None have "L' = None" by (auto dest: FinalizeSplit_loop_None)
    with None p' show ?thesis by simp
  next
    case (Some q)
    with lp FinalizeSplit_loop_queue[of p q "visited_classes p" p1 L'] p' show ?thesis
      by simp
  qed
qed

lemma split_yess_pending:
  assumes "c < length (split_yess nos yess k)" "split_yess nos yess k ! c \<noteq> []"
  shows "c < length yess \<and> yess ! c \<noteq> [] \<and> c \<noteq> k"
proof -
  have a: "c < length yess \<and> yess ! c \<noteq> [] \<and> c \<noteq> k"
    if "c < length yess" "yess[k := []] ! c \<noteq> []"
    using that by (cases "c = k") simp_all
  show ?thesis
  proof (cases "c < length yess")
    case True
    with assms(2) have "yess[k := []] ! c \<noteq> []"
      by (simp add: split_yess_def nth_append split: if_splits)
    with True show ?thesis by (rule a)
  next
    case False
    with assms show ?thesis
      by (auto simp: split_yess_def nth_append less_Suc_eq split: if_splits)
  qed
qed

subsection \<open>The loop of \<^verbatim>\<open>FinalizeSplit\<close>\<close>

lemma SplitRefine_sizes:
  assumes sr: "SplitRefine p c = Some (Inr (p', n))" and n: "n \<noteq> - 1"
  shows "n = int (length (classes p)) \<and>
         size_c (classes p' ! nat n) \<le> size_c (classes p' ! nat c) \<and>
         (if size_c (classes p ! nat c) - yes_size (classes p ! nat c) < yes_size (classes p ! nat c)
          then size_c (classes p' ! nat n)
                 = size_c (classes p ! nat c) - yes_size (classes p ! nat c) \<and>
               no_head (classes p' ! nat n) = no_head (classes p ! nat c) \<and>
               no_head (classes p' ! nat c) = yes_head (classes p ! nat c)
          else size_c (classes p' ! nat n) = yes_size (classes p ! nat c) \<and>
               no_head (classes p' ! nat n) = yes_head (classes p ! nat c) \<and>
               no_head (classes p' ! nat c) = no_head (classes p ! nat c))"
proof -
  let ?old = "classes p ! nat c"
  from sr have v: "valid_index (classes p) c"
    by (auto simp: SplitRefine_def split: if_splits)
  then have k: "nat c < length (classes p)" and c0: "int (nat c) = c"
    by (auto simp: valid_index_def)
  from sr n v have ns: "size_c ?old - yes_size ?old \<noteq> 0"
    by (auto simp: SplitRefine_def Let_def split: if_splits)
  from sr v ns have ene: "elements p \<noteq> []"
    by (auto simp: SplitRefine_def Let_def split: if_splits)
  show ?thesis
  proof (cases "size_c ?old - yes_size ?old < yes_size ?old")
    case True
    from sr v ns ene True obtain es' where
      "relabel (elements p) (no_head ?old) (int (length (classes p))) = Some (Inr es')"
      by (auto simp: SplitRefine_def Let_def resize_def nth_append
          split: option.splits sum.splits)
    from SplitRefine_split_no[OF k ns True ene this] sr
    have "n = int (length (classes p))" and
      "classes p' = (classes p @ [Class_new])
         [nat c := ?old\<lparr>size_c := yes_size ?old, yes_size := 0,
                          no_head := yes_head ?old, yes_head := - 1\<rparr>,
          length (classes p) := Class_new\<lparr>size_c := size_c ?old - yes_size ?old,
                                           no_head := no_head ?old\<rparr>]"
      unfolding c0 by auto
    with True k show ?thesis by (simp add: nth_list_update)
  next
    case False
    from sr v ns ene False obtain es' where
      "relabel (elements p) (yes_head ?old) (int (length (classes p))) = Some (Inr es')"
      by (auto simp: SplitRefine_def Let_def resize_def nth_append
          split: option.splits sum.splits)
    from SplitRefine_split_yes[OF k ns False ene this] sr
    have "n = int (length (classes p))" and
      "classes p' = (classes p @ [Class_new])
         [nat c := ?old\<lparr>size_c := size_c ?old - yes_size ?old, yes_size := 0,
                          yes_head := - 1\<rparr>,
          length (classes p) := Class_new\<lparr>size_c := yes_size ?old,
                                           no_head := yes_head ?old\<rparr>]"
      unfolding c0 by auto
    with False k show ?thesis by (simp add: nth_list_update)
  qed
qed

lemma FinalizeSplit_loop_ok:
  "classes_ok p nos yess \<Longrightarrow> FinalizeSplit_loop p L vs = Some (Inr (p', L')) \<Longrightarrow>
     classes_ok p' (fst (split_all (nos, yess) vs)) (snd (split_all (nos, yess) vs)) \<and>
     yes_counter p' = yes_counter p \<and> visited_classes p' = visited_classes p \<and>
     length (classes p) \<le> length (classes p') \<and>
     set (concat (fst (split_all (nos, yess) vs))) \<union>
       set (concat (snd (split_all (nos, yess) vs)))
       = set (concat nos) \<union> set (concat yess) \<and>
     (\<forall>c<length (classes p). int c \<notin> set vs \<longrightarrow>
        classes p' ! c = classes p ! c \<and> fst (split_all (nos, yess) vs) ! c = nos ! c \<and>
        snd (split_all (nos, yess) vs) ! c = yess ! c) \<and>
     (\<forall>c<length (snd (split_all (nos, yess) vs)).
        snd (split_all (nos, yess) vs) ! c \<noteq> [] \<longrightarrow>
        c < length yess \<and> yess ! c \<noteq> [] \<and> int c \<notin> set vs)"
proof (induction vs arbitrary: p nos yess L)
  case Nil
  then show ?case by simp
next
  case (Cons v vs)
  from Cons.prems(2) obtain p1 L1 where
    st: "FinalizeSplit_step p L v = Some (Inr (p1, L1))" and
    lp: "FinalizeSplit_loop p1 L1 vs = Some (Inr (p', L'))"
    by (auto split: option.splits sum.splits)
  from st obtain n where sr: "SplitRefine p v = Some (Inr (p1, n))"
    by (auto simp: FinalizeSplit_step_def split: option.splits sum.splits)
  define k where "k = nat v"
  from SplitRefine_valid[OF sr] have v: "v = int k" and k: "k < length (classes p)"
    by (auto simp: valid_index_def k_def)
  let ?N1 = "split_nos nos yess k" and ?Y1 = "split_yess nos yess k"
  let ?N = "fst (split_all (?N1, ?Y1) vs)" and ?Y = "snd (split_all (?N1, ?Y1) vs)"
  from classes_ok_length[OF Cons.prems(1)] have
    ln: "length nos = length (classes p)" "length yess = length (classes p)" by simp_all
  from SplitRefine_ok[OF Cons.prems(1) k] sr v have
    ok1: "classes_ok p1 ?N1 ?Y1" and
    e1: "yes_counter p1 = yes_counter p" "visited_classes p1 = visited_classes p" and
    o1: "\<forall>c<length (classes p). c \<noteq> k \<longrightarrow> classes p1 ! c = classes p ! c"
    by auto
  from classes_ok_length[OF ok1] ln have l1: "length (classes p) \<le> length (classes p1)"
    by (simp add: split_nos_length)
  from Cons.IH[OF ok1 lp] have
    ok': "classes_ok p' ?N ?Y" and
    e': "yes_counter p' = yes_counter p1" "visited_classes p' = visited_classes p1" and
    l': "length (classes p1) \<le> length (classes p')" and
    s': "set (concat ?N) \<union> set (concat ?Y) = set (concat ?N1) \<union> set (concat ?Y1)" and
    u': "\<forall>c<length (classes p1). int c \<notin> set vs \<longrightarrow>
           classes p' ! c = classes p1 ! c \<and> ?N ! c = ?N1 ! c \<and> ?Y ! c = ?Y1 ! c" and
    p': "\<forall>c<length ?Y. ?Y ! c \<noteq> [] \<longrightarrow> c < length ?Y1 \<and> ?Y1 ! c \<noteq> [] \<and> int c \<notin> set vs"
    by blast+
  have sa: "split_all (nos, yess) (v # vs) = split_all (?N1, ?Y1) vs" by (simp add: v)
  have s1: "set (concat ?N1) \<union> set (concat ?Y1) = set (concat nos) \<union> set (concat yess)"
    by (rule split_lists_set) (use k ln in simp_all)
  have unt: "classes p' ! c = classes p ! c \<and> ?N ! c = nos ! c \<and> ?Y ! c = yess ! c"
    if c: "c < length (classes p)" and nc: "int c \<notin> set (v # vs)" for c
  proof -
    from nc v have ck: "c \<noteq> k" and cv: "int c \<notin> set vs" by auto
    from c l1 have c1: "c < length (classes p1)" by simp
    from split_other[of c nos k yess] c ck ln
    have "?N1 ! c = nos ! c" "?Y1 ! c = yess ! c" by simp_all
    with u' c1 cv o1 c ck show ?thesis by simp
  qed
  have pend: "c < length yess \<and> yess ! c \<noteq> [] \<and> int c \<notin> set (v # vs)"
    if c: "c < length ?Y" and ne: "?Y ! c \<noteq> []" for c
  proof -
    from p' c ne have a: "c < length ?Y1" "?Y1 ! c \<noteq> []" "int c \<notin> set vs" by simp_all
    from split_yess_pending[OF a(1,2)] a(3) v show ?thesis by simp
  qed
  have len: "length (classes p) \<le> length (classes p')" using l1 l' by simp
  have yc: "yes_counter p' = yes_counter p" "visited_classes p' = visited_classes p"
    using e' e1 by simp_all
  have sets: "set (concat ?N) \<union> set (concat ?Y) = set (concat nos) \<union> set (concat yess)"
    using s' s1 by simp
  show ?case
    unfolding sa using ok' yc len sets unt pend by blast
qed

lemma FinalizeSplit_loop_returns:
  "classes_ok p nos yess \<Longrightarrow> \<forall>v\<in>set vs. valid_index (classes p) v \<Longrightarrow>
   \<exists>p' L'. FinalizeSplit_loop p L vs = Some (Inr (p', L'))"
proof (induction vs arbitrary: p nos yess L)
  case Nil
  then show ?case by simp
next
  case (Cons v vs)
  define k where "k = nat v"
  from Cons.prems(2) have v: "v = int k" and k: "k < length (classes p)"
    by (auto simp: valid_index_def k_def)
  from classes_ok_length[OF Cons.prems(1)] have
    ln: "length nos = length (classes p)" by simp
  from SplitRefine_ok[OF Cons.prems(1) k] obtain p1 n where
    sr: "SplitRefine p (int k) = Some (Inr (p1, n))" and
    ok1: "classes_ok p1 (split_nos nos yess k) (split_yess nos yess k)"
    by blast
  from sr v obtain L1 where st: "FinalizeSplit_step p L v = Some (Inr (p1, L1))"
    by (simp add: FinalizeSplit_step_def)
  from classes_ok_length[OF ok1] ln have "length (classes p) \<le> length (classes p1)"
    by (simp add: split_nos_length)
  with Cons.prems(2) have "\<forall>v\<in>set vs. valid_index (classes p1) v"
    by (auto simp: valid_index_def)
  from Cons.IH[OF ok1 this, of L1] st show ?case by auto
qed

lemma FinalizeSplit_inv:
  assumes w: "inv p nos yess" and fs: "FinalizeSplit p L = Some (Inr (p', L'))"
  shows "inv p' (fst (split_all (nos, yess) (visited_classes p)))
                (snd (split_all (nos, yess) (visited_classes p))) \<and>
         set (concat (fst (split_all (nos, yess) (visited_classes p)))) \<union>
           set (concat (snd (split_all (nos, yess) (visited_classes p))))
           = set (concat nos) \<union> set (concat yess) \<and>
         (\<forall>c<length (snd (split_all (nos, yess) (visited_classes p))).
            snd (split_all (nos, yess) (visited_classes p)) ! c = [])"
proof -
  let ?N = "fst (split_all (nos, yess) (visited_classes p))"
  let ?Y = "snd (split_all (nos, yess) (visited_classes p))"
  from fs obtain p1 where
    lp: "FinalizeSplit_loop p L (visited_classes p) = Some (Inr (p1, L'))" and
    p': "p' = p1\<lparr>visited_classes := [], yes_counter := yes_counter p1 + 1\<rparr>"
    by (auto simp: FinalizeSplit_def split: option.splits sum.splits)
  from w have ok: "classes_ok p nos yess"
    and vis: "\<forall>c<length yess. yess ! c \<noteq> [] \<longrightarrow> int c \<in> set (visited_classes p)"
    by (simp_all add: inv_def inv_at_iff)
  from FinalizeSplit_loop_ok[OF ok lp] have
    ok1: "classes_ok p1 ?N ?Y" and
    sets: "set (concat ?N) \<union> set (concat ?Y) = set (concat nos) \<union> set (concat yess)" and
    pend: "\<forall>c<length ?Y. ?Y ! c \<noteq> [] \<longrightarrow>
             c < length yess \<and> yess ! c \<noteq> [] \<and> int c \<notin> set (visited_classes p)"
    by blast+
  have ye: "\<forall>c<length ?Y. ?Y ! c = []"
  proof (intro allI impI)
    fix c assume c: "c < length ?Y"
    show "?Y ! c = []"
    proof (rule ccontr)
      assume "?Y ! c \<noteq> []"
      with pend c have "c < length yess" "yess ! c \<noteq> []" "int c \<notin> set (visited_classes p)"
        by simp_all
      with vis show False by simp
    qed
  qed
  from classes_ok_length[OF ok1] have
    ln: "length ?N = length (classes p1)" "length ?Y = length (classes p1)" by simp_all
  have ok': "classes_ok p' ?N ?Y"
  proof (rule classes_okI)
    show "length ?N = length (classes p')" "length ?Y = length (classes p')"
      using ln by (simp_all add: p')
  next
    fix c assume "c < length (classes p')"
    then have c: "c < length (classes p1)" by (simp add: p')
    with ye ln have "?Y ! c = []" by simp
    with classes_ok_class[OF ok1 c]
    have "class_ok (elements p1) (yes_counter p1 + 1) (classes p1 ! c) c (?N ! c) (?Y ! c)"
      by (simp add: class_ok_def)
    then show "class_ok (elements p') (yes_counter p') (classes p' ! c) c (?N ! c) (?Y ! c)"
      by (simp add: p')
  qed
  with ye have "inv p' ?N ?Y" by (simp add: inv_def inv_at_iff p')
  with sets ye show ?thesis by blast
qed

lemma FinalizeSplit_returns:
  assumes w: "inv p nos yess" and v: "\<forall>v\<in>set (visited_classes p). valid_index (classes p) v"
  shows "\<exists>p' L'. FinalizeSplit p L = Some (Inr (p', L'))"
proof -
  from w have ok: "classes_ok p nos yess" by (rule inv_classes_ok)
  from FinalizeSplit_loop_returns[OF ok v, of L] show ?thesis
    by (auto simp: FinalizeSplit_def)
qed

subsection \<open>Iterating over a class\<close>

lemma members_loop_dll:
  "dll (elements p) prv (it_element_id it) xs \<Longrightarrow>
   members_loop p it acc = Some (Inr (rev acc @ map int xs))"
proof (induction xs arbitrary: prv it acc)
  case Nil
  then show ?case by (subst members_loop.simps) (simp add: Done_def)
next
  case (Cons x xs)
  let ?it' = "it\<lparr>it_element_id := next_element (elements p ! x)\<rparr>"
  from Cons.prems have d: "it_element_id it = int x" "x < length (elements p)"
    "dll (elements p) (int x) (it_element_id ?it') xs" by simp_all
  have "members_loop p it acc = members_loop p ?it' (Value it # acc)"
    using d by (subst members_loop.simps) (simp add: Done_def Next_def valid_index_def)
  with Cons.IH[OF d(3), of "Value it # acc"] d show ?case by (simp add: Value_def)
qed

lemma members_ok:
  assumes "classes_ok p nos yess" "c < length (classes p)"
  shows "members p (int c) = Some (Inr (map int (nos ! c)))"
proof -
  from classes_ok_class[OF assms]
  have "dll (elements p) (- 1) (no_head (classes p ! c)) (nos ! c)"
    by (simp add: class_ok_def)
  from members_loop_dll[of p "- 1" "\<lparr>it_element_id = no_head (classes p ! c), it_class_id = int c\<rparr>"
      "nos ! c" "[]"] this assms(2)
  show ?thesis by (simp add: members_def PartitionIterator_new_def valid_index_def)
qed

lemma classes_ok_class_facts:
  assumes wa: "classes_ok p nos yess" and c: "c < length (classes p)" and ye: "yess ! c = []"
  shows "members p (int c) = Some (Inr (map int (nos ! c))) \<and>
         size_c (classes p ! c) = int (length (nos ! c)) \<and>
         (\<forall>x\<in>set (nos ! c). Partition_class_id p (int x) = Inr (int c))"
proof -
  from classes_ok_class[OF wa c]
  have ok: "class_ok (elements p) (yes_counter p) (classes p ! c) c (nos ! c) (yess ! c)" .
  then have d: "dll (elements p) (- 1) (no_head (classes p ! c)) (nos ! c)"
    by (simp add: class_ok_def)
  have "Partition_class_id p (int x) = Inr (int c)" if "x \<in> set (nos ! c)" for x
    using ok that dll_bound[OF d that]
    by (simp add: class_ok_def Partition_class_id_def valid_index_def)
  with members_ok[OF wa c] ok ye show ?thesis by (simp add: class_ok_def)
qed

subsection \<open>Sizes\<close>




subsection \<open>What the calls preserve\<close>

lemma Initialize_inv: "inv (Initialize p n) [] []"
  by (simp add: inv_def inv_at_def classes_ok_def Initialize_def)

lemma AddClass_inv:
  assumes w: "inv p nos yess"
  shows "inv (fst (AddClass p)) (nos @ [[]]) (yess @ [[]])"
proof -
  let ?p' = "fst (AddClass p)"
  from w have ok: "classes_ok p nos yess"
    and vis: "\<forall>c<length yess. yess ! c \<noteq> [] \<longrightarrow> int c \<in> set (visited_classes p)"
    by (simp_all add: inv_def inv_at_iff)
  from classes_ok_length[OF ok] have
    ln: "length nos = length (classes p)" "length yess = length (classes p)" by simp_all
  have p': "?p' = p\<lparr>classes := classes p @ [Class_new]\<rparr>"
    by (simp add: AddClass_def resize_def)
  have new: "class_ok (elements p) (yes_counter p) Class_new (length (classes p)) [] []"
    by (simp add: class_ok_def Class_new_def)
  have ok': "classes_ok ?p' (nos @ [[]]) (yess @ [[]])"
  proof (rule classes_okI)
    show "length (nos @ [[]]) = length (classes ?p')" using ln by (simp add: p')
    show "length (yess @ [[]]) = length (classes ?p')" using ln by (simp add: p')
  next
    fix c assume "c < length (classes ?p')"
    then have "c < Suc (length (classes p))" by (simp add: p')
    then consider "c < length (classes p)" | "c = length (classes p)"
      by linarith
    then show "class_ok (elements ?p') (yes_counter ?p') (classes ?p' ! c) c
                 ((nos @ [[]]) ! c) ((yess @ [[]]) ! c)"
    proof cases
      case 1
      with classes_ok_class[OF ok 1] ln show ?thesis by (simp add: p' nth_append)
    next
      case 2
      with new ln show ?thesis by (simp add: p' nth_append)
    qed
  qed
  have "\<forall>c<length (yess @ [[]]). (yess @ [[]]) ! c \<noteq> [] \<longrightarrow> int c \<in> set (visited_classes ?p')"
    using vis by (auto simp: p' nth_append less_Suc_eq)
  with ok' show ?thesis by (simp add: inv_def inv_at_iff)
qed

lemma classes_ok_owner:
  assumes w: "classes_ok p nos yess" and x: "x \<in> set (concat nos) \<union> set (concat yess)"
  obtains k where "k < length (classes p)" "x \<in> set (nos ! k) \<or> x \<in> set (yess ! k)"
proof -
  from classes_ok_length[OF w] have
    ln: "length nos = length (classes p)" "length yess = length (classes p)" by simp_all
  from x have "(\<exists>c<length nos. x \<in> set (nos ! c)) \<or> (\<exists>c<length yess. x \<in> set (yess ! c))"
    unfolding Un_iff in_concat_nth .
  with ln that show thesis by auto
qed

lemma classes_ok_yes_member:
  assumes w: "classes_ok p nos yess" and k: "k < length (classes p)" and x: "x \<in> set (yess ! k)"
  shows "x < length (elements p) \<and> yes (elements p ! x) = yes_counter p"
  using classes_ok_class[OF w k] x dll_bound[of "elements p" "- 1" _ "yess ! k" x]
  by (auto simp: class_ok_def)

lemma classes_ok_no_member:
  assumes w: "classes_ok p nos yess" and k: "k < length (classes p)" and x: "x \<in> set (nos ! k)"
  shows "x < length (elements p) \<and> class_id (elements p ! x) = int k \<and>
         yes_size (classes p ! k) = int (length (yess ! k))"
  using classes_ok_class[OF w k] x dll_bound[of "elements p" "- 1" _ "nos ! k" x]
  by (auto simp: class_ok_def)

lemma inv_same_visited:
  assumes "inv p nos yess" "classes_ok p' nos' yess" "visited_classes p' = visited_classes p"
  shows "inv p' nos' yess"
  using assms by (simp add: inv_def inv_at_iff)

lemma reachable_inv:
  "reachable p A \<Longrightarrow> \<exists>nos yess. inv p nos yess \<and> A = set (concat nos) \<union> set (concat yess)"
proof (induction rule: reachable.induct)
  case (init yc n)
  have "inv (Initialize (Partition_new yc) n) [] []" by (rule Initialize_inv)
  then show ?case by (intro exI[of _ "[]"]) simp
next
  case (reinit p A n)
  have "inv (Initialize p n) [] []" by (rule Initialize_inv)
  then show ?case by (intro exI[of _ "[]"]) simp
next
  case (add_class p A)
  then obtain nos yess where w: "inv p nos yess"
    and A: "A = set (concat nos) \<union> set (concat yess)" by blast
  from AddClass_inv[OF w] A show ?case
    by (intro exI[of _ "nos @ [[]]"] exI[of _ "yess @ [[]]"]) simp
next
  case (add p A e c p')
  then obtain nos yess where w: "inv p nos yess"
    and A: "A = set (concat nos) \<union> set (concat yess)" by blast
  note ok = inv_classes_ok[OF w]
  from add.hyps(4) have v: "valid_index (elements p) e" "valid_index (classes p) c"
    by (auto simp: Add_def split: if_splits)
  define x where "x = nat e"
  define k where "k = nat c"
  from v have e: "e = int x" and c: "c = int k" and xl: "x < length (elements p)"
    and kl: "k < length (classes p)"
    by (auto simp: x_def k_def valid_index_def)
  from add.hyps(3) A have fresh: "x \<notin> set (concat nos)" "x \<notin> set (concat yess)"
    by (simp_all add: x_def)
  from Add_ok[OF ok xl kl fresh] add.hyps(4) e c
  have ok': "classes_ok p' (nos[k := x # nos ! k]) yess"
    and v': "visited_classes p' = visited_classes p" by auto
  from inv_same_visited[OF w ok' v'] have w': "inv p' (nos[k := x # nos ! k]) yess" .
  from classes_ok_length[OF ok] kl have kn: "k < length nos" by simp
  have cs: "set (concat (nos[k := x # nos ! k])) = insert x (set (concat nos))"
    by (rule concat_cons_set[OF kn])
  have "insert x A = set (concat (nos[k := x # nos ! k])) \<union> set (concat yess)"
    unfolding cs A by blast
  with w' show ?case unfolding x_def by blast
next
  case (move p A e c p')
  then obtain nos yess where w: "inv p nos yess"
    and A: "A = set (concat nos) \<union> set (concat yess)" by blast
  note ok = inv_classes_ok[OF w]
  from classes_ok_length[OF ok] have ln: "length nos = length (classes p)" by simp
  define x where "x = nat e"
  from move.hyps(2) have e: "e = int x" by (simp add: x_def)
  from move.hyps(3) A have "x \<in> set (concat nos) \<union> set (concat yess)" by (simp add: x_def)
  from classes_ok_owner[OF ok this] obtain k where kl: "k < length (classes p)"
    and xk: "x \<in> set (nos ! k) \<or> x \<in> set (yess ! k)" by blast
  have xno: "x \<in> set (nos ! k)"
  proof (rule ccontr)
    assume "x \<notin> set (nos ! k)"
    with xk have "x \<in> set (yess ! k)" by simp
    from classes_ok_yes_member[OF ok kl this] have "Move p e c = Inl CheckFailed"
      by (simp add: Move_def e valid_index_def)
    with move.hyps(4) show False by simp
  qed
  note m = classes_ok_no_member[OF ok kl xno]
  have yx: "yes (elements p ! x) \<noteq> yes_counter p"
  proof
    assume "yes (elements p ! x) = yes_counter p"
    with m have "Move p e c = Inl CheckFailed"
      by (simp add: Move_def e valid_index_def)
    with move.hyps(4) show False by simp
  qed
  have ye: "yess ! k = []"
  proof (rule ccontr)
    assume "yess ! k \<noteq> []"
    with m have "yes_size (classes p ! k) \<noteq> 0" by simp
    with m kl yx have "Move p e c = Inl CheckFailed"
      by (simp add: Move_def e valid_index_def Let_def)
    with move.hyps(4) show False by simp
  qed
  from Move_class_out_of_range[of p c e p'] move.hyps(4)
  have vc: "valid_index (classes p) c" by blast
  define j where "j = nat c"
  from vc have c: "c = int j" and jl: "j < length (classes p)"
    by (auto simp: j_def valid_index_def)
  let ?nos1 = "nos[k := remove1 x (nos ! k)]"
  from Move_ok[OF ok kl xno yx ye jl] move.hyps(4) e c
  have ok': "classes_ok p' (?nos1[j := x # ?nos1 ! j]) yess"
    and v': "visited_classes p' = visited_classes p" by auto
  from inv_same_visited[OF w ok' v'] have w': "inv p' (?nos1[j := x # ?nos1 ! j]) yess" .
  from jl ln have jn: "j < length ?nos1" by simp
  from kl ln have kn: "k < length nos" by simp
  have "set (concat (?nos1[j := x # ?nos1 ! j])) = insert x (set (concat ?nos1))"
    by (rule concat_cons_set[OF jn])
  also have "\<dots> = set (concat nos)" by (rule concat_remove1_set[OF kn xno])
  finally have cs: "set (concat (?nos1[j := x # ?nos1 ! j])) = set (concat nos)" .
  have "A = set (concat (?nos1[j := x # ?nos1 ! j])) \<union> set (concat yess)"
    unfolding cs A ..
  with w' show ?case by blast
next
  case (split_on p A e p')
  then obtain nos yess where w: "inv p nos yess"
    and A: "A = set (concat nos) \<union> set (concat yess)" by blast
  note ok = inv_classes_ok[OF w]
  from classes_ok_length[OF ok] have
    ln: "length nos = length (classes p)" "length yess = length (classes p)" by simp_all
  define x where "x = nat e"
  from split_on.hyps(2) have e: "e = int x" by (simp add: x_def)
  from split_on.hyps(3) A have "x \<in> set (concat nos) \<union> set (concat yess)" by (simp add: x_def)
  from classes_ok_owner[OF ok this] obtain k where kl: "k < length (classes p)"
    and xk: "x \<in> set (nos ! k) \<or> x \<in> set (yess ! k)" by blast
  show ?case
  proof (cases "yes (elements p ! x) = yes_counter p")
    case True
    from xk classes_ok_no_member[OF ok kl] classes_ok_yes_member[OF ok kl]
    have "x < length (elements p)" by blast
    with True have "SplitOn p e = Inr p"
      by (simp add: SplitOn_def e valid_index_def)
    with split_on.hyps(4) w A show ?thesis by auto
  next
    case False
    with xk classes_ok_yes_member[OF ok kl] have xno: "x \<in> set (nos ! k)" by blast
    from SplitOn_inv[OF w kl xno False] split_on.hyps(4) e
    have w': "inv p' (nos[k := remove1 x (nos ! k)]) (yess[k := x # yess ! k])" by auto
    from kl ln have kn: "k < length nos" "k < length yess" by simp_all
    have c1: "set (concat (yess[k := x # yess ! k])) = insert x (set (concat yess))"
      by (rule concat_cons_set[OF kn(2)])
    have c2: "insert x (set (concat (nos[k := remove1 x (nos ! k)]))) = set (concat nos)"
      by (rule concat_remove1_set[OF kn(1) xno])
    have "A = set (concat (nos[k := remove1 x (nos ! k)])) \<union>
                         set (concat (yess[k := x # yess ! k]))"
      unfolding A c1 c2[symmetric] by blast
    with w' show ?thesis by blast
  qed
next
  case (finalize p A L p' L')
  then obtain nos yess where w: "inv p nos yess"
    and A: "A = set (concat nos) \<union> set (concat yess)" by blast
  from FinalizeSplit_inv[OF w finalize.hyps(2)] A show ?case by blast
qed

subsection \<open>One turn of the loop\<close>

lemma classes_ok_sizes:
  assumes w: "classes_ok p nos yess" and k: "k < length (classes p)"
  shows "size_c (classes p ! k) - yes_size (classes p ! k) = int (length (nos ! k)) \<and>
         no_head (classes p ! k) = (case nos ! k of [] \<Rightarrow> - 1 | x # _ \<Rightarrow> int x)"
proof -
  from classes_ok_class[OF w k] have
    "size_c (classes p ! k) - yes_size (classes p ! k) = int (length (nos ! k))"
    "dll (elements p) (- 1) (no_head (classes p ! k)) (nos ! k)"
    by (simp_all add: class_ok_def)
  with dll_head[of "elements p" "- 1" "no_head (classes p ! k)" "nos ! k"]
  show ?thesis by simp
qed

lemma wf_at_visited_class:
  assumes wa: "wf_at p nos yess (int k # vs)"
  shows "classes_ok p nos yess \<and> k < length (classes p) \<and> yess ! k \<noteq> []"
proof -
  from wa have ok: "classes_ok p nos yess"
    and sv: "set (int k # vs) = {int c |c. c < length yess \<and> yess ! c \<noteq> []}"
    by (simp_all add: wf_at_iff)
  from classes_ok_length[OF ok] have ln: "length yess = length (classes p)" by simp
  have "int k \<in> set (int k # vs)" by simp
  then have "int k \<in> {int c |c. c < length yess \<and> yess ! c \<noteq> []}" unfolding sv .
  then obtain c0 where "int k = int c0" "c0 < length yess" "yess ! c0 \<noteq> []" by blast
  then have "k < length (classes p)" "yess ! k \<noteq> []" using ln by simp_all
  with ok show ?thesis by simp
qed

lemma SplitRefine_split_members:
  assumes ok: "classes_ok p nos yess" and k: "k < length (classes p)"
    and ns: "size_c (classes p ! k) - yes_size (classes p ! k) \<noteq> 0"
  shows "\<exists>p'. SplitRefine p (int k) = Some (Inr (p', int (length (classes p)))) \<and>
           length (classes p') = Suc (length (classes p)) \<and>
           size_c (classes p' ! length (classes p)) \<le> size_c (classes p' ! k) \<and>
           (let moved = (if length (nos ! k) < length (yess ! k) then nos ! k else yess ! k);
                kept = (if length (nos ! k) < length (yess ! k) then yess ! k else nos ! k)
            in members p' (int (length (classes p))) = Some (Inr (map int moved)) \<and>
               members p' (int k) = Some (Inr (map int kept)) \<and>
               size_c (classes p' ! length (classes p)) = int (length moved) \<and>
               size_c (classes p' ! k) = int (length kept) \<and>
               (\<forall>x\<in>set moved.
                  Partition_class_id p' (int x) = Inr (int (length (classes p)))) \<and>
               (\<forall>x\<in>set kept. Partition_class_id p' (int x) = Inr (int k)))"
proof -
  let ?n = "length (classes p)"
  let ?moved = "if length (nos ! k) < length (yess ! k) then nos ! k else yess ! k"
  let ?kept = "if length (nos ! k) < length (yess ! k) then yess ! k else nos ! k"
  let ?nos' = "split_nos nos yess k" and ?yess' = "split_yess nos yess k"
  from classes_ok_length[OF ok] have ln: "length nos = ?n" "length yess = ?n" by simp_all
  from classes_ok_sizes[OF ok k] ns have none: "nos ! k \<noteq> []" by auto
  from SplitRefine_ok[OF ok k] none obtain p' where
    sr: "SplitRefine p (int k) = Some (Inr (p', int ?n))" and
    w': "classes_ok p' ?nos' ?yess'" by auto
  from classes_ok_length[OF w'] have ln': "length ?nos' = length (classes p')" by simp
  with none ln have len: "length (classes p') = Suc ?n"
    by (simp add: split_nos_def split: if_splits)
  have nn: "?nos' ! ?n = ?moved" "?yess' ! ?n = []"
    using none ln k by (simp_all add: split_nos_def split_yess_def nth_append)
  have nk: "?nos' ! k = ?kept" "?yess' ! k = []"
    using none ln k by (simp_all add: split_nos_def split_yess_def nth_append)
  from classes_ok_class_facts[OF w', of ?n] len nn
  have fn: "members p' (int ?n) = Some (Inr (map int ?moved))"
    "size_c (classes p' ! ?n) = int (length ?moved)"
    "\<forall>x\<in>set ?moved. Partition_class_id p' (int x) = Inr (int ?n)"
    by simp_all
  from classes_ok_class_facts[OF w', of k] len k nk
  have fk: "members p' (int k) = Some (Inr (map int ?kept))"
    "size_c (classes p' ! k) = int (length ?kept)"
    "\<forall>x\<in>set ?kept. Partition_class_id p' (int x) = Inr (int k)"
    by simp_all
  have le: "size_c (classes p' ! ?n) \<le> size_c (classes p' ! k)"
    unfolding fn(2) fk(2) by simp
  show ?thesis
    unfolding Let_def
    by (intro exI[of _ p'] conjI sr len le fn fk)
qed


subsection \<open>The whole of \<^verbatim>\<open>FinalizeSplit\<close>\<close>



lemma FinalizeSplit_result:
  assumes w: "wf p nos yess"
  shows "\<exists>p' L'. FinalizeSplit p L = Some (Inr (p', L')) \<and>
     L' = map_option (\<lambda>q. q @ map int [length (classes p)..<length (classes p')]) L \<and>
     length (classes p')
       = length (classes p) +
         length (filter (\<lambda>v. size_c (classes p ! nat v) \<noteq> yes_size (classes p ! nat v))
                   (visited_classes p)) \<and>
     (\<forall>j<length (filter (\<lambda>v. size_c (classes p ! nat v) \<noteq> yes_size (classes p ! nat v))
                   (visited_classes p)).
        (let v = filter (\<lambda>v. size_c (classes p ! nat v) \<noteq> yes_size (classes p ! nat v))
                   (visited_classes p) ! j;
             new = length (classes p) + j
         in members p' (int new) = Some (Inr (map int (moved (nos ! nat v) (yess ! nat v)))) \<and>
            members p' v = Some (Inr (map int (kept (nos ! nat v) (yess ! nat v)))) \<and>
            size_c (classes p' ! new) = int (length (moved (nos ! nat v) (yess ! nat v))) \<and>
            size_c (classes p' ! nat v) = int (length (kept (nos ! nat v) (yess ! nat v))) \<and>
            size_c (classes p' ! new) \<le> size_c (classes p' ! nat v))) \<and>
     (\<forall>v\<in>set (visited_classes p).
        size_c (classes p ! nat v) - yes_size (classes p ! nat v) = 0 \<longrightarrow>
        members p' v = Some (Inr (map int (yess ! nat v))) \<and>
        size_c (classes p' ! nat v) = size_c (classes p ! nat v))"
proof -
  let ?n = "length (classes p)" and ?vs = "visited_classes p"
  let ?nos' = "fst (split_all (nos, yess) ?vs)" and ?yess' = "snd (split_all (nos, yess) ?vs)"
  let ?S = "filter (\<lambda>v. size_c (classes p ! nat v) \<noteq> yes_size (classes p ! nat v)) ?vs"
  from w have wa: "wf_at p nos yess ?vs" by (simp add: wf_def)
  then have ok: "classes_ok p nos yess" and dv: "distinct ?vs"
    and sv: "set ?vs = {int c |c. c < length yess \<and> yess ! c \<noteq> []}"
    by (simp_all add: wf_at_iff)
  from classes_ok_length[OF ok] have ln: "length nos = ?n" "length yess = ?n" by simp_all
  have vb: "\<forall>v\<in>set ?vs. \<exists>k<length nos. v = int k" unfolding sv using ln by auto
  then have val: "\<forall>v\<in>set ?vs. valid_index (classes p) v"
    using ln by (auto simp: valid_index_def)
  have szk: "size_c (classes p ! k) = int (length (nos ! k)) + int (length (yess ! k)) \<and>
             yes_size (classes p ! k) = int (length (yess ! k))" if "k < ?n" for k
    using classes_ok_class[OF ok that] by (simp add: class_ok_def)
  have cond: "size_c (classes p ! nat v) \<noteq> yes_size (classes p ! nat v) \<longleftrightarrow> nos ! nat v \<noteq> []"
    if "v \<in> set ?vs" for v
  proof -
    from vb that ln obtain k where "k < ?n" "v = int k" by auto
    with szk[of k] show ?thesis by simp
  qed
  have S: "?S = filter (\<lambda>v. nos ! nat v \<noteq> []) ?vs"
    by (rule filter_cong) (simp_all add: cond)
  from split_all_lists[OF dv vb, of yess] ln have
    len: "length ?nos' = ?n + length ?S" and
    kep: "\<forall>v\<in>set ?vs. ?nos' ! nat v = kept (nos ! nat v) (yess ! nat v)" and
    mov: "\<forall>j<length ?S. ?nos' ! (?n + j) = moved (nos ! nat (?S ! j)) (yess ! nat (?S ! j))"
    unfolding S by simp_all
  from FinalizeSplit_returns[OF wf_inv[OF w] val, of L] obtain p' L' where
    fs: "FinalizeSplit p L = Some (Inr (p', L'))" by blast
  from FinalizeSplit_inv[OF wf_inv[OF w] fs] have w': "inv p' ?nos' ?yess'"
    and yeall: "\<forall>c<length ?yess'. ?yess' ! c = []" by blast+
  from FinalizeSplit_queue[OF fs] have
    L': "L' = map_option (\<lambda>q. q @ map int [?n..<length (classes p')]) L" by simp
  note ok' = inv_classes_ok[OF w']
  from classes_ok_length[OF ok'] have
    ln': "length ?nos' = length (classes p')" "length ?yess' = length (classes p')"
    by simp_all
  from yeall ln' have ye: "?yess' ! c = []" if "c < length (classes p')" for c using that by simp
  have fact: "members p' (int c) = Some (Inr (map int (?nos' ! c))) \<and>
              size_c (classes p' ! c) = int (length (?nos' ! c))"
    if "c < length (classes p')" for c
    using classes_ok_class_facts[OF ok' that ye[OF that]] by simp
  have cl: "length (classes p') = ?n + length ?S" using len ln' by simp
  have Smem: "?S ! j \<in> set ?vs" if "j < length ?S" for j
    using that by (metis filter_is_subset nth_mem subsetD)
  have split: "let v = ?S ! j; new = ?n + j
         in members p' (int new) = Some (Inr (map int (moved (nos ! nat v) (yess ! nat v)))) \<and>
            members p' v = Some (Inr (map int (kept (nos ! nat v) (yess ! nat v)))) \<and>
            size_c (classes p' ! new) = int (length (moved (nos ! nat v) (yess ! nat v))) \<and>
            size_c (classes p' ! nat v) = int (length (kept (nos ! nat v) (yess ! nat v))) \<and>
            size_c (classes p' ! new) \<le> size_c (classes p' ! nat v)"
    if j: "j < length ?S" for j
  proof -
    from vb Smem[OF j] ln obtain k where k: "k < ?n" "?S ! j = int k" by auto
    from j cl have "?n + j < length (classes p')" by simp
    from fact[OF this] mov j
    have a: "members p' (int (?n + j)) = Some (Inr (map int (moved (nos ! k) (yess ! k))))"
      "size_c (classes p' ! (?n + j)) = int (length (moved (nos ! k) (yess ! k)))"
      using k by simp_all
    from k cl have "k < length (classes p')" by simp
    from fact[OF this] kep Smem[OF j] k
    have b: "members p' (int k) = Some (Inr (map int (kept (nos ! k) (yess ! k))))"
      "size_c (classes p' ! k) = int (length (kept (nos ! k) (yess ! k)))"
      by auto
    from a b k kept_moved_length[of "nos ! k" "yess ! k"] show ?thesis
      by (simp add: Let_def)
  qed
  have nosplit: "members p' v = Some (Inr (map int (yess ! nat v))) \<and>
        size_c (classes p' ! nat v) = size_c (classes p ! nat v)"
    if v: "v \<in> set ?vs" and z: "size_c (classes p ! nat v) - yes_size (classes p ! nat v) = 0"
    for v
  proof -
    from vb v ln obtain k where k: "k < ?n" "v = int k" by auto
    from z cond[OF v] have e: "nos ! k = []" using k by simp
    from k cl have "k < length (classes p')" by simp
    from fact[OF this] kep v k e szk[OF k(1)] show ?thesis by (auto simp: kept_Nil)
  qed
  from fs L' cl split nosplit show ?thesis by blast
qed


subsection \<open>The scenarios\<close>

lemma reachable_scenario_A_added: "reachable scenario_A_added {0, 1, 2, 3}"
proof -
  define p0 :: "'a word Partition"
    where "p0 = fst (AddClass (fst (AddClass (Initialize (Partition_new 0) 4))))"
  define p1 where "p1 = projr (Add p0 0 0)"
  define p2 where "p2 = projr (Add p1 1 0)"
  define p3 where "p3 = projr (Add p2 2 0)"
  have r0: "reachable p0 {}"
    unfolding p0_def by (intro reachable.add_class reachable.init)
  have a1: "Add p0 0 0 = Inr p1" unfolding p1_def p0_def by code_simp
  have a2: "Add p1 1 0 = Inr p2" unfolding p2_def p1_def p0_def by code_simp
  have a3: "Add p2 2 0 = Inr p3" unfolding p3_def p2_def p1_def p0_def by code_simp
  have a4: "Add p3 3 0 = Inr scenario_A_added"
    unfolding p3_def p2_def p1_def p0_def by code_simp
  from reachable.add[OF r0 _ _ a1] have r1: "reachable p1 {0}" by simp
  from reachable.add[OF r1 _ _ a2] have r2: "reachable p2 {0, 1}" by (simp add: insert_commute)
  from reachable.add[OF r2 _ _ a3] have r3: "reachable p3 {0, 1, 2}" by (simp add: insert_commute)
  from reachable.add[OF r3 _ _ a4] show ?thesis by (simp add: insert_commute)
qed



lemma scenario_A_added_run:
  "calls (Initialize (Partition_new yc) 4, L)
     [CallAddClass, CallAddClass, CallAdd 0 0, CallAdd 1 0, CallAdd 2 0, CallAdd 3 0]
   = Some (Inr (scenario_A_added, L))"
  by code_simp

lemma scenario_A_marked_run:
  "calls (scenario_A_added, L) [CallSplitOn 1, CallSplitOn 2] = Some (Inr (scenario_A_marked, L))"
  by code_simp

lemma scenario_A_refined_run:
  "FinalizeSplit scenario_A_marked (Some q) = Some (Inr (scenario_A_refined, Some (q @ [2])))"
  by code_simp

lemma stale_marked_run:
  "calls (Partition_new yc, L) stale_calls = Some (Inr (stale_marked, L))"
  by code_simp

lemma stale_refined_run:
  "FinalizeSplit stale_marked (Some q) = Some (Inr (stale_refined, Some (q @ [1])))"
  by code_simp

subsection \<open>The counter\<close>




subsection \<open>Calls that return\<close>


subsection \<open>\<^verbatim>\<open>Initialize\<close> in the middle of a split\<close>

lemma stale_once_marked_run:
  "calls (Partition_new yc, L) stale_once_calls = Some (Inr (stale_once_marked, L))"
  by code_simp



lemma reachable_scenario_B_marked: "reachable scenario_B_marked {0, 1, 2, 3}"
proof -
  define p1 :: "'a word Partition" where "p1 = projr (SplitOn scenario_A_added 0)"
  define p2 where "p2 = projr (SplitOn p1 1)"
  define p3 where "p3 = projr (SplitOn p2 2)"
  have s1: "SplitOn scenario_A_added 0 = Inr p1" unfolding p1_def by code_simp
  have s2: "SplitOn p1 1 = Inr p2" unfolding p2_def p1_def by code_simp
  have s3: "SplitOn p2 2 = Inr p3" unfolding p3_def p2_def p1_def by code_simp
  have s4: "SplitOn p3 3 = Inr scenario_B_marked" unfolding p3_def p2_def p1_def by code_simp
  from reachable.split_on[OF reachable_scenario_A_added _ _ s1]
  have r1: "reachable p1 {0, 1, 2, 3}" by simp
  from reachable.split_on[OF r1 _ _ s2] have r2: "reachable p2 {0, 1, 2, 3}" by simp
  from reachable.split_on[OF r2 _ _ s3] have r3: "reachable p3 {0, 1, 2, 3}" by simp
  from reachable.split_on[OF r3 _ _ s4] show ?thesis by simp
qed



section \<open>The claims\<close>

subsection \<open>C1: the smaller subset moves\<close>

text \<open>
  C1: whenever \<^verbatim>\<open>SplitRefine\<close> creates a class, for any partition at all, the new class has
  the index \<^verbatim>\<open>classes_.size()\<close> and its size is at most the size the old class keeps: it
  receives the 'no' count and the 'no' list when the 'no' count is strictly smaller than
  the 'yes' count, and the 'yes' count and the 'yes' list otherwise, a tie included.
  When \<open>k\<close> is the next visited class of a partition for which the loop invariant of
  \<^verbatim>\<open>FinalizeSplit\<close> holds with the lists \<open>nos\<close> and \<open>yess\<close>, and its 'no' count is not
  0, the call does return with a new class; iterating over the new class gives the shorter
  of \<open>nos ! k\<close> and \<open>yess ! k\<close> (the 'yes' list on a tie), iterating over \<open>k\<close> gives the
  other one, the sizes are their lengths, and \<^verbatim>\<open>class_id\<close> of every moved element is the
  new index and of every element that stays is \<open>k\<close>.  For the whole call on a
  well-formed partition with lists \<open>nos\<close> and \<open>yess\<close>: \<^verbatim>\<open>FinalizeSplit\<close> returns, and the
  \<open>j\<close>-th visited class \<open>v\<close> with a 'no' count other than 0 has got the \<open>j\<close>-th new
  class, which at the end of the call holds \<open>moved (nos ! v) (yess ! v)\<close> while \<open>v\<close> holds
  \<open>kept (nos ! v) (yess ! v)\<close>, the new class being no larger than \<open>v\<close>.
\<close>

theorem SplitRefine_moves_smaller:
  "(\<forall>p' n. SplitRefine p c = Some (Inr (p', n)) \<longrightarrow> n \<noteq> - 1 \<longrightarrow>
      n = int (length (classes p)) \<and>
      size_c (classes p' ! nat n) \<le> size_c (classes p' ! nat c) \<and>
      (if size_c (classes p ! nat c) - yes_size (classes p ! nat c)
            < yes_size (classes p ! nat c)
       then size_c (classes p' ! nat n)
              = size_c (classes p ! nat c) - yes_size (classes p ! nat c) \<and>
            no_head (classes p' ! nat n) = no_head (classes p ! nat c) \<and>
            no_head (classes p' ! nat c) = yes_head (classes p ! nat c)
       else size_c (classes p' ! nat n) = yes_size (classes p ! nat c) \<and>
            no_head (classes p' ! nat n) = yes_head (classes p ! nat c) \<and>
            no_head (classes p' ! nat c) = no_head (classes p ! nat c))) \<and>
   (wf_at p nos yess (int k # vs) \<longrightarrow>
    size_c (classes p ! k) - yes_size (classes p ! k) \<noteq> 0 \<longrightarrow>
      (\<exists>p'. SplitRefine p (int k) = Some (Inr (p', int (length (classes p)))) \<and>
           length (classes p') = Suc (length (classes p)) \<and>
           size_c (classes p' ! length (classes p)) \<le> size_c (classes p' ! k) \<and>
           (let moved = (if length (nos ! k) < length (yess ! k) then nos ! k else yess ! k);
                kept = (if length (nos ! k) < length (yess ! k) then yess ! k else nos ! k)
            in members p' (int (length (classes p))) = Some (Inr (map int moved)) \<and>
               members p' (int k) = Some (Inr (map int kept)) \<and>
               size_c (classes p' ! length (classes p)) = int (length moved) \<and>
               size_c (classes p' ! k) = int (length kept) \<and>
               (\<forall>x\<in>set moved.
                  Partition_class_id p' (int x) = Inr (int (length (classes p)))) \<and>
               (\<forall>x\<in>set kept. Partition_class_id p' (int x) = Inr (int k))))) \<and>
   (wf p nos yess \<longrightarrow>
      (\<exists>p' L'. FinalizeSplit p L = Some (Inr (p', L')) \<and>
         length (classes p')
           = length (classes p) +
             length (filter (\<lambda>v. size_c (classes p ! nat v) \<noteq> yes_size (classes p ! nat v))
                       (visited_classes p)) \<and>
         (\<forall>j<length (filter (\<lambda>v. size_c (classes p ! nat v) \<noteq> yes_size (classes p ! nat v))
                       (visited_classes p)).
            (let v = filter (\<lambda>v. size_c (classes p ! nat v) \<noteq> yes_size (classes p ! nat v))
                       (visited_classes p) ! j;
                 new = length (classes p) + j
             in members p' (int new)
                  = Some (Inr (map int (moved (nos ! nat v) (yess ! nat v)))) \<and>
                members p' v = Some (Inr (map int (kept (nos ! nat v) (yess ! nat v)))) \<and>
                size_c (classes p' ! new)
                  = int (length (moved (nos ! nat v) (yess ! nat v))) \<and>
                size_c (classes p' ! nat v)
                  = int (length (kept (nos ! nat v) (yess ! nat v))) \<and>
                size_c (classes p' ! new) \<le> size_c (classes p' ! nat v)))))"
proof (intro conjI)
  show "\<forall>p' n. SplitRefine p c = Some (Inr (p', n)) \<longrightarrow> n \<noteq> - 1 \<longrightarrow>
      n = int (length (classes p)) \<and>
      size_c (classes p' ! nat n) \<le> size_c (classes p' ! nat c) \<and>
      (if size_c (classes p ! nat c) - yes_size (classes p ! nat c)
            < yes_size (classes p ! nat c)
       then size_c (classes p' ! nat n)
              = size_c (classes p ! nat c) - yes_size (classes p ! nat c) \<and>
            no_head (classes p' ! nat n) = no_head (classes p ! nat c) \<and>
            no_head (classes p' ! nat c) = yes_head (classes p ! nat c)
       else size_c (classes p' ! nat n) = yes_size (classes p ! nat c) \<and>
            no_head (classes p' ! nat n) = yes_head (classes p ! nat c) \<and>
            no_head (classes p' ! nat c) = no_head (classes p ! nat c))"
    by (intro allI impI) (rule SplitRefine_sizes)
next
  show "wf_at p nos yess (int k # vs) \<longrightarrow>
    size_c (classes p ! k) - yes_size (classes p ! k) \<noteq> 0 \<longrightarrow>
      (\<exists>p'. SplitRefine p (int k) = Some (Inr (p', int (length (classes p)))) \<and>
           length (classes p') = Suc (length (classes p)) \<and>
           size_c (classes p' ! length (classes p)) \<le> size_c (classes p' ! k) \<and>
           (let moved = (if length (nos ! k) < length (yess ! k) then nos ! k else yess ! k);
                kept = (if length (nos ! k) < length (yess ! k) then yess ! k else nos ! k)
            in members p' (int (length (classes p))) = Some (Inr (map int moved)) \<and>
               members p' (int k) = Some (Inr (map int kept)) \<and>
               size_c (classes p' ! length (classes p)) = int (length moved) \<and>
               size_c (classes p' ! k) = int (length kept) \<and>
               (\<forall>x\<in>set moved.
                  Partition_class_id p' (int x) = Inr (int (length (classes p)))) \<and>
               (\<forall>x\<in>set kept. Partition_class_id p' (int x) = Inr (int k))))"
  proof (intro impI)
    assume wa: "wf_at p nos yess (int k # vs)"
      and ns: "size_c (classes p ! k) - yes_size (classes p ! k) \<noteq> 0"
    from wf_at_visited_class[OF wa] have ok: "classes_ok p nos yess"
      and k: "k < length (classes p)" by simp_all
    show "\<exists>p'. SplitRefine p (int k) = Some (Inr (p', int (length (classes p)))) \<and>
           length (classes p') = Suc (length (classes p)) \<and>
           size_c (classes p' ! length (classes p)) \<le> size_c (classes p' ! k) \<and>
           (let moved = (if length (nos ! k) < length (yess ! k) then nos ! k else yess ! k);
                kept = (if length (nos ! k) < length (yess ! k) then yess ! k else nos ! k)
            in members p' (int (length (classes p))) = Some (Inr (map int moved)) \<and>
               members p' (int k) = Some (Inr (map int kept)) \<and>
               size_c (classes p' ! length (classes p)) = int (length moved) \<and>
               size_c (classes p' ! k) = int (length kept) \<and>
               (\<forall>x\<in>set moved.
                  Partition_class_id p' (int x) = Inr (int (length (classes p)))) \<and>
               (\<forall>x\<in>set kept. Partition_class_id p' (int x) = Inr (int k)))"
      by (rule SplitRefine_split_members[OF ok k ns])
  qed
next
  show "wf p nos yess \<longrightarrow>
      (\<exists>p' L'. FinalizeSplit p L = Some (Inr (p', L')) \<and>
         length (classes p')
           = length (classes p) +
             length (filter (\<lambda>v. size_c (classes p ! nat v) \<noteq> yes_size (classes p ! nat v))
                       (visited_classes p)) \<and>
         (\<forall>j<length (filter (\<lambda>v. size_c (classes p ! nat v) \<noteq> yes_size (classes p ! nat v))
                       (visited_classes p)).
            (let v = filter (\<lambda>v. size_c (classes p ! nat v) \<noteq> yes_size (classes p ! nat v))
                       (visited_classes p) ! j;
                 new = length (classes p) + j
             in members p' (int new)
                  = Some (Inr (map int (moved (nos ! nat v) (yess ! nat v)))) \<and>
                members p' v = Some (Inr (map int (kept (nos ! nat v) (yess ! nat v)))) \<and>
                size_c (classes p' ! new)
                  = int (length (moved (nos ! nat v) (yess ! nat v))) \<and>
                size_c (classes p' ! nat v)
                  = int (length (kept (nos ! nat v) (yess ! nat v))) \<and>
                size_c (classes p' ! new) \<le> size_c (classes p' ! nat v))))"
  proof
    assume "wf p nos yess"
    from FinalizeSplit_result[OF this, of L] show "\<exists>p' L'. FinalizeSplit p L = Some (Inr (p', L')) \<and>
         length (classes p')
           = length (classes p) +
             length (filter (\<lambda>v. size_c (classes p ! nat v) \<noteq> yes_size (classes p ! nat v))
                       (visited_classes p)) \<and>
         (\<forall>j<length (filter (\<lambda>v. size_c (classes p ! nat v) \<noteq> yes_size (classes p ! nat v))
                       (visited_classes p)).
            (let v = filter (\<lambda>v. size_c (classes p ! nat v) \<noteq> yes_size (classes p ! nat v))
                       (visited_classes p) ! j;
                 new = length (classes p) + j
             in members p' (int new)
                  = Some (Inr (map int (moved (nos ! nat v) (yess ! nat v)))) \<and>
                members p' v = Some (Inr (map int (kept (nos ! nat v) (yess ! nat v)))) \<and>
                size_c (classes p' ! new)
                  = int (length (moved (nos ! nat v) (yess ! nat v))) \<and>
                size_c (classes p' ! nat v)
                  = int (length (kept (nos ! nat v) (yess ! nat v))) \<and>
                size_c (classes p' ! new) \<le> size_c (classes p' ! nat v)))"
      by blast
  qed
qed

theorem SplitRefine_moves_smaller_witness:
  "wf_at (scenario_A_marked :: 'a::len word Partition) [[3, 0], []] [[2, 1], []] [0] \<and>
   (\<exists>p'. SplitRefine (scenario_A_marked :: 'a word Partition) 0 = Some (Inr (p', 2)) \<and>
         size_c (classes p' ! 2) = 2 \<and> size_c (classes p' ! 0) = 2 \<and>
         members p' 2 = Some (Inr [2, 1]) \<and> members p' 0 = Some (Inr [3, 0]))"
proof -
  let ?p = "scenario_A_marked :: 'a word Partition"
  have w: "wf_at ?p [[3, 0], []] [[2, 1], []] (int 0 # [])" by code_simp
  have n: "size_c (classes ?p ! 0) - yes_size (classes ?p ! 0) \<noteq> 0"
    by code_simp
  have l: "length (classes ?p) = 2" by (simp add: scenario_A_marked_def)
  note inst = SplitRefine_moves_smaller[where p = ?p and c = 0 and k = 0
      and nos = "[[3, 0], []]" and yess = "[[2, 1], []]" and vs = "[]",
      THEN conjunct2, THEN conjunct1, rule_format, OF w n]
  from inst obtain p' where
    p': "SplitRefine ?p (int 0) = Some (Inr (p', int 2))"
      "members p' (int 2) = Some (Inr (map int [2, 1]))"
      "members p' (int 0) = Some (Inr (map int [3, 0]))"
      "size_c (classes p' ! 2) = int (length [2::nat, 1])"
      "size_c (classes p' ! 0) = int (length [3::nat, 0])"
    unfolding l Let_def by auto
  then have "SplitRefine ?p 0 = Some (Inr (p', 2)) \<and>
         size_c (classes p' ! 2) = 2 \<and> size_c (classes p' ! 0) = 2 \<and>
         members p' 2 = Some (Inr [2, 1]) \<and> members p' 0 = Some (Inr [3, 0])"
    by simp
  with w show ?thesis by auto
qed

subsection \<open>C2: Scenario A\<close>

text \<open>
  C2 as the specification has it: after \<^verbatim>\<open>initialize(4)\<close>, two \<^verbatim>\<open>add_class()\<close>, four
  \<^verbatim>\<open>add\<close> into class 0, \<^verbatim>\<open>distinguish(1)\<close>, \<^verbatim>\<open>distinguish(2)\<close> and \<^verbatim>\<open>refine_all(q)\<close>,
  class 1 is the new class \<open>{1,2}\<close> and \<open>q = [1]\<close>.  The code gives something else:
  two classes exist before the split, so the class it creates has index 2, class 1 stays
  empty and the worklist holds \<open>[2]\<close>.
\<close>

theorem scenario_A_new_class_is_2:
  "calls (Initialize (Partition_new 0) 4, Some []) scenario_A
     = Some (Inr (scenario_A_refined, Some [2])) \<and>
   calls (Initialize (Partition_new 0) 4, Some []) scenario_A
     \<noteq> Some (Inr (scenario_A_refined, Some [1])) \<and>
   class_size scenario_A_refined 1 = Inr 0 \<and>
   class_size scenario_A_refined 1 \<noteq> Inr 2 \<and>
   members scenario_A_refined 1 = Some (Inr []) \<and>
   map (Partition_class_id scenario_A_refined) [1, 2] = [Inr 2, Inr 2] \<and>
   map (Partition_class_id scenario_A_refined) [1, 2] \<noteq> [Inr 1, Inr 1]"
  by code_simp

text \<open>
  C2, amended: the scenario runs without failure whatever the counter held before
  \<^verbatim>\<open>Initialize\<close>; \<^verbatim>\<open>class_size(0)\<close> is 4 after the four \<^verbatim>\<open>Add\<close> calls; the refinement
  creates class 2 with size 2 and members 2 and 1, class 0 keeps size 2 and members 3 and 0,
  class 1 stays empty, and the worklist receives exactly \<open>[2]\<close>.
\<close>

theorem scenario_A_amended:
  "calls (Initialize (Partition_new yc) 4, Some [])
      [CallAddClass, CallAddClass, CallAdd 0 0, CallAdd 1 0, CallAdd 2 0, CallAdd 3 0]
     = Some (Inr (scenario_A_added, Some [])) \<and>
   class_size scenario_A_added 0 = Inr 4 \<and>
   calls (Initialize (Partition_new yc) 4, Some []) scenario_A
     = Some (Inr (scenario_A_refined, Some [2])) \<and>
   num_classes scenario_A_refined = 3 \<and>
   class_size scenario_A_refined 2 = Inr 2 \<and>
   members scenario_A_refined 2 = Some (Inr [2, 1]) \<and>
   map (Partition_class_id scenario_A_refined) [0, 1, 2, 3] = [Inr 0, Inr 2, Inr 2, Inr 0] \<and>
   class_size scenario_A_refined 0 = Inr 2 \<and>
   members scenario_A_refined 0 = Some (Inr [3, 0]) \<and>
   class_size scenario_A_refined 1 = Inr 0 \<and>
   members scenario_A_refined 1 = Some (Inr [])"
  by code_simp

subsection \<open>C3: a class whose members are all distinguished\<close>




subsection \<open>C4: \<^verbatim>\<open>SplitOn\<close> twice\<close>

text \<open>
  C4: for any partition and any element, if \<^verbatim>\<open>SplitOn(e)\<close> returns then the element
  carries the current tag, so a second \<^verbatim>\<open>SplitOn(e)\<close> returns at once and leaves the
  partition exactly as the first call left it.  And the first call does return for every
  element that has been added to a class of a partition reached by calls that keep to the
  contract.
\<close>

theorem SplitOn_idempotent:
  "(SplitOn p e = Inr p' \<longrightarrow> SplitOn p' e = Inr p') \<and>
   (reachable p A \<longrightarrow> 0 \<le> e \<longrightarrow> nat e \<in> A \<longrightarrow> (\<exists>p''. SplitOn p e = Inr p''))"
proof (intro conjI impI)
  assume "SplitOn p e = Inr p'"
  from SplitOn_tagged[OF this] show "SplitOn p' e = Inr p'" by (simp add: SplitOn_def)
next
  assume r: "reachable p A" and e0: "0 \<le> e" and eA: "nat e \<in> A"
  from reachable_inv[OF r] obtain nos yess where w: "inv p nos yess"
    and A: "A = set (concat nos) \<union> set (concat yess)" by blast
  note ok = inv_classes_ok[OF w]
  from eA A have "nat e \<in> set (concat nos) \<union> set (concat yess)" by simp
  from classes_ok_owner[OF ok this] obtain k where kl: "k < length (classes p)"
    and xk: "nat e \<in> set (nos ! k) \<or> nat e \<in> set (yess ! k)" by blast
  show "\<exists>p''. SplitOn p e = Inr p''"
  proof (cases "yes (elements p ! nat e) = yes_counter p")
    case True
    from xk classes_ok_no_member[OF ok kl] classes_ok_yes_member[OF ok kl]
    have "nat e < length (elements p)" by blast
    with e0 have "valid_index (elements p) e" by (simp add: valid_index_def)
    with True have "SplitOn p e = Inr p" by (simp add: SplitOn_def)
    then show ?thesis by blast
  next
    case False
    with xk classes_ok_yes_member[OF ok kl] have "nat e \<in> set (nos ! k)" by blast
    from SplitOn_inv[OF w kl this False] e0 show ?thesis by auto
  qed
qed

theorem SplitOn_idempotent_witness:
  "SplitOn (scenario_A_added :: 'a::len word Partition) 1
     = Inr (projr (SplitOn scenario_A_added 1)) \<and>
   SplitOn (projr (SplitOn (scenario_A_added :: 'a word Partition) 1)) 1
     = Inr (projr (SplitOn scenario_A_added 1)) \<and>
   projr (SplitOn (scenario_A_added :: 'a word Partition) 1) \<noteq> scenario_A_added"
proof -
  let ?p = "scenario_A_added :: 'a word Partition"
  have s: "SplitOn ?p 1 = Inr (projr (SplitOn ?p 1))" by code_simp
  have n: "projr (SplitOn ?p 1) \<noteq> ?p" by code_simp
  from SplitOn_idempotent[of ?p 1 "projr (SplitOn ?p 1)" "{0,1,2,3}"]
    s n reachable_scenario_A_added
  show ?thesis by simp
qed

subsection \<open>C5: size conservation\<close>




subsection \<open>C6: \<^verbatim>\<open>AddClass\<close>\<close>

text \<open>
  C6: \<^verbatim>\<open>AddClass\<close> appends exactly one empty class, touches nothing else, and returns the
  index of that class, which is the number of classes before the call; \<^verbatim>\<open>num_classes()\<close>
  is one greater afterwards.
\<close>

theorem AddClass_appends_one:
  "AddClass p = (p\<lparr>classes := classes p @ [Class_new]\<rparr>, num_classes p) \<and>
   num_classes (fst (AddClass p)) = num_classes p + 1 \<and>
   class_size (fst (AddClass p)) (snd (AddClass p)) = Inr 0"
  by (simp add: AddClass_def resize_def num_classes_def class_size_def valid_index_def
      Class_new_def)

theorem AddClass_appends_one_witness:
  "AddClass (scenario_A_added :: 'a::len word Partition) =
     (scenario_A_added\<lparr>classes := classes scenario_A_added @ [Class_new]\<rparr>, 2) \<and>
   num_classes (fst (AddClass (scenario_A_added :: 'a word Partition))) = 3"
  using AddClass_appends_one[of "scenario_A_added :: 'a word Partition"]
  by (simp add: num_classes_def scenario_A_added_def)

subsection \<open>C7: violated preconditions\<close>

text \<open>
  C7 as the specification has it: a duplicate \<^verbatim>\<open>add\<close> of an element that a class already
  owns aborts.  \<^verbatim>\<open>Add\<close> holds no \<^verbatim>\<open>CHECK\<close>: adding element 0 to class 0 twice returns
  normally, with class size 2 and the element linked to itself.
\<close>

theorem duplicate_Add_returns:
  "calls (Initialize (Partition_new 0) 1, None) [CallAddClass, CallAdd 0 0, CallAdd 0 0]
     = Some (Inr (\<lparr>elements =
                     [\<lparr>class_id = 0, yes = 0, next_element = 0, prev_element = - 1\<rparr>],
                   classes = [\<lparr>size_c = 2, yes_size = 0, no_head = 0, yes_head = - 1\<rparr>],
                   visited_classes = [], yes_counter = 1\<rparr>, None))"
  by code_simp

text \<open>
  C7, amended: \<^verbatim>\<open>Move\<close> on an element of the partition whose recorded class exists stops at
  a \<^verbatim>\<open>CHECK\<close> when the element carries the current tag, when the 'yes' subset of its
  class is not empty, or when the size of its class is not positive (it would go
  negative); \<^verbatim>\<open>Add\<close> never stops at a \<^verbatim>\<open>CHECK\<close>, whatever its arguments.
\<close>

theorem Move_checks_Add_does_not:
  "(valid_index (elements p) e \<longrightarrow>
      valid_index (classes p) (class_id (elements p ! nat e)) \<longrightarrow>
      yes (elements p ! nat e) = yes_counter p
      \<or> yes_size (classes p ! nat (class_id (elements p ! nat e))) \<noteq> 0
      \<or> size_c (classes p ! nat (class_id (elements p ! nat e))) \<le> 0 \<longrightarrow>
      Move p e c = Inl CheckFailed) \<and>
   Add p e c \<noteq> Inl CheckFailed"
  by (auto simp: Move_def Add_def Let_def link_prev_def split: sum.splits)

theorem Move_checks_Add_does_not_witness:
  "Move (scenario_A_marked :: 'a::len word Partition) 0 1 = Inl CheckFailed \<and>
   Move (scenario_A_marked :: 'a word Partition) 1 1 = Inl CheckFailed \<and>
   Add (scenario_A_marked :: 'a word Partition) 0 0 \<noteq> Inl CheckFailed"
  using Move_checks_Add_does_not[of "scenario_A_marked :: 'a word Partition" 0 1]
    Move_checks_Add_does_not[of "scenario_A_marked :: 'a word Partition" 1 1]
    Move_checks_Add_does_not[of "scenario_A_marked :: 'a word Partition" 0 0]
  by (simp add: scenario_A_marked_def valid_index_def)

subsection \<open>C8: indices out of range\<close>




subsection \<open>C9: \<^verbatim>\<open>Initialize\<close> keeps the visited list\<close>

text \<open>
  C9: \<^verbatim>\<open>Initialize(n)\<close> resizes the element vector to \<open>n\<close>, empties the class vector and
  sets the counter to 1; the visited list is what it was.  So after a \<^verbatim>\<open>SplitOn\<close> without
  \<^verbatim>\<open>FinalizeSplit\<close> the visited list still names a class when no class exists any more;
  the partition of Scenario A after its two \<^verbatim>\<open>SplitOn\<close> calls shows it.
\<close>

theorem Initialize_keeps_visited:
  "length (elements (Initialize p n)) = n \<and>
   classes (Initialize p n) = [] \<and>
   yes_counter (Initialize p n) = 1 \<and>
   visited_classes (Initialize p n) = visited_classes p"
  by (simp add: Initialize_def resize_def)

theorem Initialize_keeps_visited_witness:
  "length (elements (Initialize (scenario_A_marked :: 'a::len word Partition) 7)) = 7 \<and>
   classes (Initialize (scenario_A_marked :: 'a word Partition) 7) = [] \<and>
   yes_counter (Initialize (scenario_A_marked :: 'a word Partition) 7) = 1 \<and>
   visited_classes (Initialize (scenario_A_marked :: 'a word Partition) 7) = [0]"
  using Initialize_keeps_visited[of "scenario_A_marked :: 'a word Partition" 7]
  by (simp add: scenario_A_marked_def)

subsection \<open>C10: \<^verbatim>\<open>FinalizeSplit\<close> with a null queue\<close>

text \<open>
  C10: \<^verbatim>\<open>FinalizeSplit\<close> with a null queue pointer has the outcome it has with any queue
  \<open>q\<close>, the queue left out: the same failure, the same non-return, or the same resulting
  partition, and the pointer stays null.  With a queue, what is appended to it is exactly
  the list of the classes created, in the order of their creation.
\<close>

theorem FinalizeSplit_null_queue:
  "FinalizeSplit p None =
     map_option (map_sum id (\<lambda>(p', L'). (p', None))) (FinalizeSplit p (Some q)) \<and>
   (\<forall>p' L'. FinalizeSplit p (Some q) = Some (Inr (p', L')) \<longrightarrow>
      L' = Some (q @ map int [length (classes p)..<length (classes p')]))"
proof
  show "FinalizeSplit p None =
     map_option (map_sum id (\<lambda>(p', L'). (p', None))) (FinalizeSplit p (Some q))"
    unfolding FinalizeSplit_def FinalizeSplit_loop_null[of p _ q]
    by (auto split: option.splits sum.splits)
next
  show "\<forall>p' L'. FinalizeSplit p (Some q) = Some (Inr (p', L')) \<longrightarrow>
      L' = Some (q @ map int [length (classes p)..<length (classes p')])"
    by (auto simp: FinalizeSplit_def split: option.splits sum.splits
        dest!: FinalizeSplit_loop_queue)
qed

theorem FinalizeSplit_null_queue_witness:
  "FinalizeSplit (scenario_A_marked :: 'a::len word Partition) None
     = Some (Inr (scenario_A_refined, None)) \<and>
   FinalizeSplit (scenario_A_marked :: 'a word Partition) (Some [5])
     = Some (Inr (scenario_A_refined, Some [5, 2]))"
  using FinalizeSplit_null_queue[of "scenario_A_marked :: 'a word Partition" "[5]"]
    scenario_A_refined_run[of "[5]", where 'a = 'a]
  by simp

end
